theory Spec2Isabelle
  imports Main "HOL-Library.AList"
begin

section \<open>The dashboard reconciler of \<^verbatim>\<open>framework/dashboards.py\<close>\<close>

text \<open>
  A shallow embedding of \<^verbatim>\<open>DashboardFromFiles\<close>. Python strings are
  lists of characters (code points below 256), a \<^verbatim>\<open>dict\<close> is an
  association list in insertion order (assignment is \<^const>\<open>AList.update\<close>: an
  existing key keeps its place, a new one goes last), an exception is a value of
  type \<open>exn\<close> on the left of a sum.
\<close>

subsection \<open>Exceptions\<close>

datatype exn =
    StopIteration
  | SyntaxError string
  | ValueError string
  | TypeError string
  | KeyError string
  | AssertionError string
  | JSONDecodeError
  | DatabricksError string

text \<open>
  \<open>DatabricksError c\<close> carries the \<^verbatim>\<open>error_code\<close>. \<open>str_exn\<close> is
  \<^verbatim>\<open>str(err)\<close> for the exceptions the builders can raise; the text of a
  \<open>DatabricksError\<close> is the remote's and is left out.
\<close>

fun str_exn :: "exn \<Rightarrow> string" where
  "str_exn StopIteration = []"
| "str_exn (SyntaxError m) = m"
| "str_exn (ValueError m) = m"
| "str_exn (TypeError m) = m"
| "str_exn (KeyError k) = [CHR 0x27] @ k @ [CHR 0x27]"
| "str_exn (AssertionError m) = m"

subsection \<open>String operations of the Python library\<close>

text \<open>\<^verbatim>\<open>s.startswith(p)\<close>.\<close>

fun startswith :: "string \<Rightarrow> string \<Rightarrow> bool" where
  "startswith s [] = True"
| "startswith [] (p # ps) = False"
| "startswith (c # cs) (p # ps) = (c = p \<and> startswith cs ps)"

text \<open>
  \<^verbatim>\<open>s.split(sep)\<close> for a separator that is not empty (every call of the
  module passes a literal): the leftmost occurrences, not overlapping.
\<close>

fun split_str :: "string \<Rightarrow> string \<Rightarrow> string list" where
  "split_str (d # ds) [] = [[]]"
| "split_str (d # ds) (c # cs) =
     (if startswith (c # cs) (d # ds) then [] # split_str (d # ds) (drop (length ds) cs)
      else (case split_str (d # ds) cs of
              p # ps \<Rightarrow> (c # p) # ps
            | [] \<Rightarrow> [[c]]))"

text \<open>\<^verbatim>\<open>s.replace(old, new)\<close> for an \<^verbatim>\<open>old\<close> that is not empty.\<close>

fun replace_str :: "string \<Rightarrow> string \<Rightarrow> string \<Rightarrow> string" where
  "replace_str (d # ds) new [] = []"
| "replace_str (d # ds) new (c # cs) =
     (if startswith (c # cs) (d # ds) then new @ replace_str (d # ds) new (drop (length ds) cs)
      else c # replace_str (d # ds) new cs)"

text \<open>
  \<^verbatim>\<open>s.splitlines()\<close>: the line boundaries are LF, CR, CR LF, VT, FF, FS, GS,
  RS and NEL; no empty last line is made.
\<close>

definition linebreak :: "char \<Rightarrow> bool" where
  "linebreak c \<longleftrightarrow>
     c \<in> set [CHR 0x0A, CHR 0x0B, CHR 0x0C, CHR 0x0D, CHR 0x1C, CHR 0x1D, CHR 0x1E, CHR 0x85]"

fun splitlines_from :: "string \<Rightarrow> string \<Rightarrow> string list" where
  "splitlines_from acc [] = (if acc = [] then [] else [rev acc])"
| "splitlines_from acc [c] = (if linebreak c then [rev acc] else [rev (c # acc)])"
| "splitlines_from acc (c # d # cs) =
     (if c = CHR 0x0D \<and> d = CHR 0x0A then rev acc # splitlines_from [] cs
      else if linebreak c then rev acc # splitlines_from [] (d # cs)
      else splitlines_from (c # acc) (d # cs))"

definition splitlines :: "string \<Rightarrow> string list" where
  "splitlines s = splitlines_from [] s"

text \<open>
  \<^verbatim>\<open>a, b = xs\<close>: unpacking into exactly two names raises
  \<^verbatim>\<open>ValueError\<close> for any other length.
\<close>

fun unpack2 :: "string list \<Rightarrow> exn + (string \<times> string)" where
  "unpack2 [a, b] = Inr (a, b)"
| "unpack2 [] = Inl (ValueError ''not enough values to unpack (expected 2, got 0)'')"
| "unpack2 [a] = Inl (ValueError ''not enough values to unpack (expected 2, got 1)'')"
| "unpack2 (a # b # c # xs) = Inl (ValueError ''too many values to unpack (expected 2)'')"

text \<open>
  \<^verbatim>\<open>dict(pairs)\<close> over the lists that \<^verbatim>\<open>split("=")\<close> gives: every
  element needs length 2 (the message leaves out the element's index and length); a
  repeated key keeps its first place and its last value.
\<close>

fun dict_of_splits :: "(string \<times> string) list \<Rightarrow> string list list \<Rightarrow> exn + (string \<times> string) list" where
  "dict_of_splits acc [] = Inr acc"
| "dict_of_splits acc ([k, v] # rest) = dict_of_splits (AList.update k v acc) rest"
| "dict_of_splits acc (_ # rest) =
     Inl (ValueError ''dictionary update sequence element has the wrong length; 2 is required'')"

text \<open>
  \<^verbatim>\<open>int(s)\<close> for a string: blanks around it are dropped, then an optional sign
  and decimal digits, where single underscores may stand between digits.
\<close>

definition py_space :: "char \<Rightarrow> bool" where
  "py_space c \<longleftrightarrow>
     c \<in> set [CHR 0x09, CHR 0x0A, CHR 0x0B, CHR 0x0C, CHR 0x0D, CHR 0x1C, CHR 0x1D,
              CHR 0x1E, CHR 0x1F, CHR 0x20, CHR 0x85, CHR 0xA0]"

definition strip :: "string \<Rightarrow> string" where
  "strip s = rev (dropWhile py_space (rev (dropWhile py_space s)))"

definition digit_of :: "char \<Rightarrow> nat option" where
  "digit_of c =
     (if (48::nat) \<le> of_char c \<and> of_char c \<le> (57::nat) then Some (of_char c - 48) else None)"

fun digits_from :: "nat \<Rightarrow> string \<Rightarrow> nat option" where
  "digits_from n [] = Some n"
| "digits_from n [c] = (case digit_of c of Some v \<Rightarrow> Some (10 * n + v) | None \<Rightarrow> None)"
| "digits_from n (c # d # cs) =
     (if c = CHR ''_''
      then (case digit_of d of Some v \<Rightarrow> digits_from (10 * n + v) cs | None \<Rightarrow> None)
      else (case digit_of c of Some v \<Rightarrow> digits_from (10 * n + v) (d # cs) | None \<Rightarrow> None))"

definition magnitude :: "string \<Rightarrow> nat option" where
  "magnitude s =
     (case s of
        [] \<Rightarrow> None
      | c # cs \<Rightarrow> (case digit_of c of Some v \<Rightarrow> digits_from v cs | None \<Rightarrow> None))"

definition quoted :: "string \<Rightarrow> string" where
  "quoted s = [CHR 0x27] @ s @ [CHR 0x27]"

definition py_int :: "string \<Rightarrow> exn + int" where
  "py_int s =
     (case (case strip s of
              [] \<Rightarrow> None
            | c # cs \<Rightarrow>
                if c = CHR ''-'' then map_option (\<lambda>n. - int n) (magnitude cs)
                else if c = CHR ''+'' then map_option int (magnitude cs)
                else map_option int (magnitude (c # cs))) of
        Some i \<Rightarrow> Inr i
      | None \<Rightarrow> Inl (ValueError (''invalid literal for int() with base 10: '' @ quoted s)))"

text \<open>
  \<^verbatim>\<open>Path.stem\<close> of a file or folder name, and \<^verbatim>\<open>str.lower()\<close> and
  \<^verbatim>\<open>str.title()\<close>, where the cased characters are the ASCII letters.
\<close>

definition stem :: "string \<Rightarrow> string" where
  "stem n =
     (let k = length (takeWhile (\<lambda>c. c \<noteq> CHR ''.'') (rev n)) in
      if k < length n \<and> 0 < length n - 1 - k \<and> 0 < k then take (length n - 1 - k) n else n)"

definition is_upper :: "char \<Rightarrow> bool" where
  "is_upper c \<longleftrightarrow> (65::nat) \<le> of_char c \<and> of_char c \<le> (90::nat)"

definition is_lower :: "char \<Rightarrow> bool" where
  "is_lower c \<longleftrightarrow> (97::nat) \<le> of_char c \<and> of_char c \<le> (122::nat)"

definition lower_chr :: "char \<Rightarrow> char" where
  "lower_chr c = (if is_upper c then char_of (of_char c + (32::nat)) else c)"

definition upper_chr :: "char \<Rightarrow> char" where
  "upper_chr c = (if is_lower c then char_of (of_char c - (32::nat)) else c)"

definition lower :: "string \<Rightarrow> string" where
  "lower s = map lower_chr s"

fun title_from :: "bool \<Rightarrow> string \<Rightarrow> string" where
  "title_from prev [] = []"
| "title_from prev (c # cs) =
     (if prev then lower_chr c else upper_chr c) # title_from (is_upper c \<or> is_lower c) cs"

definition title :: "string \<Rightarrow> string" where
  "title s = title_from False s"

subsection \<open>Query definitions: \<^verbatim>\<open>SimpleQuery\<close>\<close>

record simple_query =
  dashboard_ref :: string
  name :: string
  query :: string
  viz :: "(string \<times> string) list"
  widget :: "(string \<times> string) list"

definition query_key :: "simple_query \<Rightarrow> string" where
  "query_key q = dashboard_ref q @ ''_'' @ name q @ '':query_id''"

definition viz_key :: "simple_query \<Rightarrow> string" where
  "viz_key q = dashboard_ref q @ ''_'' @ name q @ '':viz_id''"

definition widget_key :: "simple_query \<Rightarrow> string" where
  "widget_key q = dashboard_ref q @ ''_'' @ name q @ '':widget_id''"

text \<open>The dashboard's key, \<^verbatim>\<open>f"{dashboard_ref}:dashboard_id"\<close>.\<close>

definition dashboard_key :: "string \<Rightarrow> string" where
  "dashboard_key ref = ref @ '':dashboard_id''"

definition viz_type :: "simple_query \<Rightarrow> string option" where
  "viz_type q = map_of (viz q) ''type''"

definition viz_args :: "simple_query \<Rightarrow> (string \<times> string) list" where
  "viz_args q = filter (\<lambda>(k, v). k \<notin> set [''type'']) (viz q)"

subsection \<open>Magic comments\<close>

text \<open>
  \<^verbatim>\<open>next(_ for _ in text.splitlines() if _.startswith(magic_comment))\<close> has no
  default: with no such line it raises \<^verbatim>\<open>StopIteration\<close>.
\<close>

definition parse_magic_comment :: "string \<Rightarrow> string \<Rightarrow> string \<Rightarrow> exn + (string \<times> string) list" where
  "parse_magic_comment f magic_comment text =
     (case filter (\<lambda>l. startswith l magic_comment) (splitlines text) of
        [] \<Rightarrow> Inl StopIteration
      | viz_comment # _ \<Rightarrow>
          if viz_comment = []
          then Inl (SyntaxError (f @ '': cannot find '' @ [CHR 0x22] @ magic_comment @ [CHR 0x22] @ '' magic comment''))
          else dict_of_splits []
                 (map (split_str ''='') (split_str '', '' (replace_str magic_comment [] viz_comment))))"

subsection \<open>Visualization arguments\<close>

text \<open>The values the builders put into their dictionaries.\<close>

datatype pyval =
    PNone
  | PBool bool
  | PInt int
  | PStr string
  | PList "pyval list"
  | PDict "(string \<times> pyval) list"

text \<open>\<^verbatim>\<open>VizColumn(name=x, title=y).as_dict()\<close>, with the defaults of the dataclass.\<close>

definition viz_column :: "string \<Rightarrow> string \<Rightarrow> pyval" where
  "viz_column x y = PDict
     [(''name'', PStr x), (''title'', PStr y), (''type'', PStr ''string''),
      (''imageUrlTemplate'', PStr ''{{ @ }}''), (''imageTitleTemplate'', PStr ''{{ @ }}''),
      (''linkUrlTemplate'', PStr ''{{ @ }}''), (''linkTextTemplate'', PStr ''{{ @ }}''),
      (''linkTitleTemplate'', PStr ''{{ @ }}''), (''linkOpenInNewTab'', PBool True),
      (''displayAs'', PStr ''string''), (''visible'', PBool True), (''order'', PInt 100000),
      (''allowSearch'', PBool False), (''alignContent'', PStr ''left''),
      (''allowHTML'', PBool False), (''highlightLinks'', PBool False),
      (''useMonospaceFont'', PBool False), (''preserveWhitespace'', PBool False)]"

text \<open>
  A keyword argument of a call \<^verbatim>\<open>f(**kw)\<close>: the string passed, or the
  parameter's default.
\<close>

definition kwarg :: "(string \<times> string) list \<Rightarrow> string \<Rightarrow> pyval \<Rightarrow> pyval" where
  "kwarg kw k dflt = (case map_of kw k of Some v \<Rightarrow> PStr v | None \<Rightarrow> dflt)"

text \<open>
  Binding \<^verbatim>\<open>**kw\<close> to a signature: the first keyword that is no parameter is
  a \<^verbatim>\<open>TypeError\<close>; so is a positional parameter left without a value.
\<close>

definition unexpected_kwarg :: "string \<Rightarrow> string list \<Rightarrow> (string \<times> string) list \<Rightarrow> exn option" where
  "unexpected_kwarg fname params kw =
     (case filter (\<lambda>(k, v). k \<notin> set params) kw of
        [] \<Rightarrow> None
      | (k, v) # _ \<Rightarrow>
          Some (TypeError (fname @ ''() got an unexpected keyword argument '' @ quoted k)))"

definition missing1 :: "string \<Rightarrow> string \<Rightarrow> exn" where
  "missing1 fname a =
     TypeError (fname @ ''() missing 1 required positional argument: '' @ quoted a)"

definition missing2 :: "string \<Rightarrow> string \<Rightarrow> string \<Rightarrow> exn" where
  "missing2 fname a b =
     TypeError (fname @ ''() missing 2 required positional arguments: '' @ quoted a
                @ '' and '' @ quoted b)"

definition table_viz_args :: "(string \<times> string) list \<Rightarrow> exn + pyval" where
  "table_viz_args kw =
     (let fname = ''DashboardFromFiles._table_viz_args'' in
      case unexpected_kwarg fname
             [''name'', ''columns'', ''items_per_page'', ''condensed'', ''with_row_number'',
              ''description''] kw of
        Some e \<Rightarrow> Inl e
      | None \<Rightarrow>
          (case (map_of kw ''name'', map_of kw ''columns'') of
             (None, None) \<Rightarrow> Inl (missing2 fname ''name'' ''columns'')
           | (None, Some c) \<Rightarrow> Inl (missing1 fname ''name'')
           | (Some n, None) \<Rightarrow> Inl (missing1 fname ''columns'')
           | (Some n, Some c) \<Rightarrow>
               Inr (PDict
                 [(''type'', PStr ''TABLE''),
                  (''name'', PStr n),
                  (''description'', kwarg kw ''description'' PNone),
                  (''options'', PDict
                     [(''itemsPerPage'', kwarg kw ''items_per_page'' (PInt 25)),
                      (''condensed'', kwarg kw ''condensed'' (PBool True)),
                      (''withRowNumber'', kwarg kw ''with_row_number'' (PBool False)),
                      (''version'', PInt 2),
                      (''columns'', PList (map (\<lambda>x. viz_column x x) (split_str '','' c)))])])))"

definition counter_viz_args :: "(string \<times> string) list \<Rightarrow> exn + pyval" where
  "counter_viz_args kw =
     (let fname = ''DashboardFromFiles._counter_viz_args'' in
      case unexpected_kwarg fname
             [''name'', ''value_column'', ''description'', ''counter_label'',
              ''value_row_number'', ''target_row_number'', ''string_decimal'',
              ''string_decimal_char'', ''string_thousand_separator'', ''tooltip_format'',
              ''count_row''] kw of
        Some e \<Rightarrow> Inl e
      | None \<Rightarrow>
          (case (map_of kw ''name'', map_of kw ''value_column'') of
             (None, None) \<Rightarrow> Inl (missing2 fname ''name'' ''value_column'')
           | (None, Some c) \<Rightarrow> Inl (missing1 fname ''name'')
           | (Some n, None) \<Rightarrow> Inl (missing1 fname ''value_column'')
           | (Some n, Some c) \<Rightarrow>
               Inr (PDict
                 [(''type'', PStr ''COUNTER''),
                  (''name'', PStr n),
                  (''description'', kwarg kw ''description'' PNone),
                  (''options'', PDict
                     [(''counterLabel'', kwarg kw ''counter_label'' PNone),
                      (''counterColName'', PStr c),
                      (''rowNumber'', kwarg kw ''value_row_number'' (PInt 1)),
                      (''targetRowNumber'', kwarg kw ''target_row_number'' (PInt 1)),
                      (''stringDecimal'', kwarg kw ''string_decimal'' (PInt 0)),
                      (''stringDecChar'', kwarg kw ''string_decimal_char'' (PStr ''.'')),
                      (''stringThouSep'', kwarg kw ''string_thousand_separator'' (PStr '','')),
                      (''tooltipFormat'', kwarg kw ''tooltip_format'' (PStr ''0,0.000'')),
                      (''countRow'', kwarg kw ''count_row'' (PBool False))])])))"

text \<open>
  \<^verbatim>\<open>_get_viz_options\<close>: the type must be a key of \<^verbatim>\<open>viz_types\<close>; the
  message starts with the query's text, and an absent type prints as
  \<^verbatim>\<open>None\<close>.
\<close>

definition get_viz_options :: "simple_query \<Rightarrow> exn + pyval" where
  "get_viz_options q =
     (if viz_type q = Some ''table'' then table_viz_args (viz_args q)
      else if viz_type q = Some ''counter'' then counter_viz_args (viz_args q)
      else Inl (SyntaxError (query q @ '': unknown viz type: ''
                  @ (case viz_type q of None \<Rightarrow> ''None'' | Some t \<Rightarrow> t))))"

subsection \<open>Widget options\<close>

record widget_position =
  col :: int
  row :: int
  size_x :: int
  size_y :: int

record widget_options =
  title_of :: string
  description :: "string option"
  position :: widget_position

text \<open>\<^verbatim>\<open>int(d.get(k, dflt))\<close> with an integer default.\<close>

definition int_attr :: "(string \<times> string) list \<Rightarrow> string \<Rightarrow> int \<Rightarrow> exn + int" where
  "int_attr d k dflt = (case map_of d k of None \<Rightarrow> Inr dflt | Some s \<Rightarrow> py_int s)"

text \<open>
  The options \<^verbatim>\<open>_get_widget_options\<close> builds once the counter has the value
  \<open>p\<close>; the four integers are converted in the order col, row, size\_x, size\_y.
\<close>

definition widget_options_at :: "int \<Rightarrow> simple_query \<Rightarrow> exn + widget_options" where
  "widget_options_at p q =
     (case int_attr (widget q) ''col'' 0 of
        Inl e \<Rightarrow> Inl e
      | Inr c \<Rightarrow>
          (case int_attr (widget q) ''row'' p of
             Inl e \<Rightarrow> Inl e
           | Inr r \<Rightarrow>
               (case int_attr (widget q) ''size_x'' 3 of
                  Inl e \<Rightarrow> Inl e
                | Inr sx \<Rightarrow>
                    (case int_attr (widget q) ''size_y'' 3 of
                       Inl e \<Rightarrow> Inl e
                     | Inr sy \<Rightarrow>
                         Inr \<lparr>title_of = (case map_of (widget q) ''title'' of
                                           None \<Rightarrow> [] | Some t \<Rightarrow> t),
                              description = map_of (widget q) ''description'',
                              position = \<lparr>col = c, row = r, size_x = sx, size_y = sy\<rparr>\<rparr>))))"

subsection \<open>The workspace client\<close>

text \<open>
  Identifiers of remote objects are strings. A call of the client is recorded with
  the arguments that vary; the object-type, role and permission-level constants are
  written as the names the SDK gives them.
\<close>

type_synonym ident = string

datatype call =
    WorkspaceDownload string
  | WorkspaceMkdirs string
  | WorkspaceGetStatus string
  | WorkspaceUpload string "(string \<times> ident) list"
  | DataSourcesList
  | WarehousesList
  | DashboardsGet ident
  | DashboardsCreate string string
  | PermissionsSet string ident string string
  | QueriesGet ident
  | QueriesCreate string string string string
  | QueriesUpdate ident string string string
  | QueriesDelete ident
  | VisualizationsCreate ident pyval
  | VisualizationsUpdate ident pyval
  | VisualizationsDelete ident
  | WidgetsCreate ident widget_options ident
  | WidgetsDelete ident

text \<open>
  What \<^verbatim>\<open>json.load\<close> makes of the downloaded bytes: the dictionary of a
  JSON object, or a \<^verbatim>\<open>JSONDecodeError\<close>. The upload carries the dictionary
  that \<^verbatim>\<open>json.dumps\<close> serialises.
\<close>

datatype blob = Json "(string \<times> ident) list" | NotJson

text \<open>
  The remote service is any deterministic one: what a call does is a function of the
  calls made before it. \<open>raises h c\<close> is the \<^verbatim>\<open>error_code\<close> of the
  \<^verbatim>\<open>DatabricksError\<close> that call \<open>c\<close> raises after the calls \<open>h\<close>, if it
  raises; the other fields are what a call that returns gives back.
\<close>

record remote =
  raises :: "call list \<Rightarrow> call \<Rightarrow> string option"
  downloaded :: "call list \<Rightarrow> blob"
  object_id :: "call list \<Rightarrow> string"
  data_sources :: "call list \<Rightarrow> (string \<times> string) list"
  warehouses :: "call list \<Rightarrow> string list"
  dashboard_widgets :: "call list \<Rightarrow> ident \<Rightarrow> ident list"
  created_id :: "call list \<Rightarrow> call \<Rightarrow> ident"

datatype log_record =
    WarningStateCorrupt string
  | InfoDeleteFailed string ident string

subsection \<open>The local folder\<close>

text \<open>
  What the two \<^verbatim>\<open>glob("*")\<close> filtered by \<^verbatim>\<open>is_dir()\<close> and the
  \<^verbatim>\<open>glob("*.sql")\<close> yield, in their order: folders and files by name, files
  with their text.
\<close>

record sql_file =
  file_name :: string
  file_text :: string

record dashboard_folder =
  folder_name :: string
  sql_files :: "sql_file list"

record step_folder =
  step_name :: string
  dashboard_folders :: "dashboard_folder list"

subsection \<open>\<^verbatim>\<open>DashboardFromFiles\<close>\<close>

text \<open>
  The object's fields, with \<^verbatim>\<open>_local_folder\<close> as its path and its listing.
  \<open>calls\<close> are the calls made through \<^verbatim>\<open>_ws\<close> so far, oldest first, and
  \<open>logs\<close> the warnings and the deletion failures logged so far.
\<close>

record dashboard_from_files =
  ws :: remote
  local_path :: string
  local_folder :: "step_folder list"
  remote_folder :: string
  name_prefix :: string
  query_text_callback :: "(string \<Rightarrow> string) option"
  warehouse_id :: "string option"
  state :: "(string \<times> ident) list"
  pos :: int
  calls :: "call list"
  logs :: "log_record list"

text \<open>\<^verbatim>\<open>__init__\<close>: empty state, counter 0; nothing called yet.\<close>

definition init :: "remote \<Rightarrow> string \<Rightarrow> step_folder list \<Rightarrow> string \<Rightarrow> string
    \<Rightarrow> (string \<Rightarrow> string) option \<Rightarrow> string option \<Rightarrow> dashboard_from_files" where
  "init w lp lf rf np cb wh =
     \<lparr>ws = w, local_path = lp, local_folder = lf, remote_folder = rf, name_prefix = np,
      query_text_callback = cb, warehouse_id = wh, state = [], pos = 0, calls = [], logs = []\<rparr>"

text \<open>
  A method takes the object and returns its result or the exception it raises,
  with the object as the method left it.
\<close>

type_synonym 'a prog = "dashboard_from_files \<Rightarrow> (exn + 'a) \<times> dashboard_from_files"

definition bind :: "'a prog \<Rightarrow> ('a \<Rightarrow> 'b prog) \<Rightarrow> 'b prog" where
  "bind m f s = (case m s of (Inl e, s') \<Rightarrow> (Inl e, s') | (Inr x, s') \<Rightarrow> f x s')"

definition lift :: "exn + 'a \<Rightarrow> 'a prog" where
  "lift r s = (r, s)"

text \<open>A call of the client: recorded, then it raises or returns.\<close>

definition invoke :: "call \<Rightarrow> unit prog" where
  "invoke c s =
     (case raises (ws s) (calls s) c of
        Some code \<Rightarrow> (Inl (DatabricksError code), s\<lparr>calls := calls s @ [c]\<rparr>)
      | None \<Rightarrow> (Inr (), s\<lparr>calls := calls s @ [c]\<rparr>))"

text \<open>A create call: the new object's \<^verbatim>\<open>id\<close>.\<close>

definition create :: "call \<Rightarrow> ident prog" where
  "create c s = bind (invoke c) (\<lambda>_. lift (Inr (created_id (ws s) (calls s) c))) s"

text \<open>\<^verbatim>\<open>self._state[k]\<close> read, and written.\<close>

definition state_get :: "string \<Rightarrow> ident prog" where
  "state_get k s =
     (case map_of (state s) k of Some v \<Rightarrow> (Inr v, s) | None \<Rightarrow> (Inl (KeyError k), s))"

definition state_set :: "string \<Rightarrow> ident \<Rightarrow> unit prog" where
  "state_set k v s = (Inr (), s\<lparr>state := AList.update k v (state s)\<rparr>)"

definition query_state :: "dashboard_from_files \<Rightarrow> string" where
  "query_state s = remote_folder s @ ''/state.json''"

text \<open>
  A \<^verbatim>\<open>for\<close> loop over a list whose body may raise; \<open>acc\<close> are the local
  variables the body assigns.
\<close>

primrec fold_prog :: "('a \<Rightarrow> 'b \<Rightarrow> 'b prog) \<Rightarrow> 'a list \<Rightarrow> 'b \<Rightarrow> 'b prog" where
  "fold_prog f [] acc = lift (Inr acc)"
| "fold_prog f (x # xs) acc = bind (f x acc) (fold_prog f xs)"

text \<open>Calls that return a value: it is the remote's answer after the calls before it.\<close>

definition workspace_download :: "string \<Rightarrow> blob prog" where
  "workspace_download p s =
     bind (invoke (WorkspaceDownload p)) (\<lambda>_. lift (Inr (downloaded (ws s) (calls s)))) s"

definition workspace_get_status :: "string \<Rightarrow> string prog" where
  "workspace_get_status p s =
     bind (invoke (WorkspaceGetStatus p)) (\<lambda>_. lift (Inr (object_id (ws s) (calls s)))) s"

definition data_sources_list :: "(string \<times> string) list prog" where
  "data_sources_list s =
     bind (invoke DataSourcesList) (\<lambda>_. lift (Inr (data_sources (ws s) (calls s)))) s"

definition warehouses_list :: "string list prog" where
  "warehouses_list s =
     bind (invoke WarehousesList) (\<lambda>_. lift (Inr (warehouses (ws s) (calls s)))) s"

definition dashboards_get :: "ident \<Rightarrow> ident list prog" where
  "dashboards_get d s =
     bind (invoke (DashboardsGet d)) (\<lambda>_. lift (Inr (dashboard_widgets (ws s) (calls s) d))) s"

subsection \<open>Loading the state: \<^verbatim>\<open>_installed_query_state\<close>\<close>

text \<open>
  The body of the loop over \<^verbatim>\<open>self._state.items()\<close>: the key is unpacked
  first; only a \<^verbatim>\<open>query_id\<close> entry is looked up remotely, and a
  \<^verbatim>\<open>DatabricksError\<close> of the lookup puts the key on \<^verbatim>\<open>to_remove\<close>.
\<close>

definition sweep_entry :: "string \<times> ident \<Rightarrow> string list \<Rightarrow> string list prog" where
  "sweep_entry kv to_remove s =
     (case unpack2 (split_str '':'' (fst kv)) of
        Inl e \<Rightarrow> (Inl e, s)
      | Inr (u, kind) \<Rightarrow>
          if fst kv = ''dashboard_id'' then (Inr to_remove, s)
          else if kind \<noteq> ''query_id'' then (Inr to_remove, s)
          else (case invoke (QueriesGet (snd kv)) s of
                  (Inl (DatabricksError code), s') \<Rightarrow> (Inr (to_remove @ [fst kv]), s')
                | (Inl e, s') \<Rightarrow> (Inl e, s')
                | (Inr x, s') \<Rightarrow> (Inr to_remove, s')))"

text \<open>The \<^verbatim>\<open>try\<close> block.\<close>

definition load_state :: "unit prog" where
  "load_state s =
     bind (workspace_download (query_state s))
       (\<lambda>b. case b of
          NotJson \<Rightarrow> lift (Inl JSONDecodeError)
        | Json d \<Rightarrow>
            (\<lambda>s1. bind (fold_prog sweep_entry d [])
                     (\<lambda>to_remove s2.
                        (Inr (), s2\<lparr>state := fold AList.delete to_remove (state s2)\<rparr>))
                     (s1\<lparr>state := d\<rparr>))) s"

text \<open>The \<^verbatim>\<open>try\<close> statement with its handlers.\<close>

definition load_handled :: "unit prog" where
  "load_handled s =
     (case load_state s of
        (Inl (DatabricksError code), s1) \<Rightarrow>
          if code \<noteq> ''RESOURCE_DOES_NOT_EXIST'' then (Inl (DatabricksError code), s1)
          else invoke (WorkspaceMkdirs (remote_folder s1)) s1
      | (Inl JSONDecodeError, s1) \<Rightarrow>
          (Inr (), s1\<lparr>logs := logs s1 @ [WarningStateCorrupt (query_state s1)], state := []\<rparr>)
      | (Inl e, s1) \<Rightarrow> (Inl e, s1)
      | (Inr u, s1) \<Rightarrow> (Inr (), s1))"

text \<open>The folder's status, and the parent it gives.\<close>

definition parent_folder :: "string prog" where
  "parent_folder s =
     bind (workspace_get_status (remote_folder s)) (\<lambda>oid. lift (Inr (''folders/'' @ oid))) s"

definition installed_query_state :: "string prog" where
  "installed_query_state = bind load_handled (\<lambda>_. parent_folder)"

subsection \<open>Saving the state: \<^verbatim>\<open>_store_query_state\<close>\<close>

definition desired_keys :: "(string \<times> simple_query list) list \<Rightarrow> string list" where
  "desired_keys queries =
     concat (map (\<lambda>(ref, qrs).
       dashboard_key ref # concat (map (\<lambda>q. [query_key q, viz_key q, widget_key q]) qrs)) queries)"

definition destructors :: "string \<Rightarrow> (ident \<Rightarrow> call) option" where
  "destructors kind =
     (if kind = ''query_id'' then Some QueriesDelete
      else if kind = ''viz_id'' then Some VisualizationsDelete
      else if kind = ''widget_id'' then Some WidgetsDelete
      else None)"

text \<open>
  The body of the loop over the state: a desired entry is copied; any other key is
  unpacked, and an entry with a destructor is deleted remotely, a
  \<^verbatim>\<open>DatabricksError\<close> of the deletion being logged.
\<close>

definition store_entry :: "string list \<Rightarrow> string \<times> ident \<Rightarrow> (string \<times> ident) list
    \<Rightarrow> (string \<times> ident) list prog" where
  "store_entry desired kv new_state s =
     (if fst kv \<in> set desired then (Inr (AList.update (fst kv) (snd kv) new_state), s)
      else (case unpack2 (split_str '':'' (fst kv)) of
              Inl e \<Rightarrow> (Inl e, s)
            | Inr (u, kind) \<Rightarrow>
                (case destructors kind of
                   None \<Rightarrow> (Inr new_state, s)
                 | Some destructor \<Rightarrow>
                     (case invoke (destructor (snd kv)) s of
                        (Inl (DatabricksError code), s') \<Rightarrow>
                          (Inr new_state,
                           s'\<lparr>logs := logs s' @ [InfoDeleteFailed kind (snd kv) code]\<rparr>)
                      | (Inl e, s') \<Rightarrow> (Inl e, s')
                      | (Inr x, s') \<Rightarrow> (Inr new_state, s')))))"

definition store_query_state :: "(string \<times> simple_query list) list \<Rightarrow> unit prog" where
  "store_query_state queries s =
     bind (fold_prog (store_entry (desired_keys queries)) (state s) [])
       (\<lambda>new_state s'. invoke (WorkspaceUpload (query_state s') new_state) s') s"

subsection \<open>Installing a dashboard, a query, a visualization, a widget\<close>

definition install_dashboard :: "string \<Rightarrow> string \<Rightarrow> string \<Rightarrow> unit prog" where
  "install_dashboard dashboard_name parent_folder_id ref s =
     (case map_of (state s) (dashboard_key ref) of
        Some d \<Rightarrow>
          bind (dashboards_get d)
            (\<lambda>widgets. fold_prog (\<lambda>w _. invoke (WidgetsDelete w)) widgets ()) s
      | None \<Rightarrow>
          bind (create (DashboardsCreate dashboard_name parent_folder_id))
            (\<lambda>dash. bind (invoke (PermissionsSet ''dashboards'' dash ''users'' ''CAN_VIEW''))
               (\<lambda>_. state_set (dashboard_key ref) dash)) s)"

definition install_query :: "simple_query \<Rightarrow> string \<Rightarrow> string \<Rightarrow> string \<Rightarrow> unit prog" where
  "install_query q dashboard_name data_source_id parent s =
     (case map_of (state s) (query_key q) of
        Some i \<Rightarrow>
          invoke (QueriesUpdate i data_source_id (dashboard_name @ '' - '' @ name q) (query q)) s
      | None \<Rightarrow>
          bind (create (QueriesCreate parent data_source_id (dashboard_name @ '' - '' @ name q)
                  (query q)))
            (\<lambda>i. bind (invoke (PermissionsSet ''queries'' i ''users'' ''CAN_RUN''))
               (\<lambda>_. state_set (query_key q) i)) s)"

definition install_viz :: "simple_query \<Rightarrow> unit prog" where
  "install_viz q =
     bind (lift (get_viz_options q))
       (\<lambda>args s. case map_of (state s) (viz_key q) of
          Some i \<Rightarrow> invoke (VisualizationsUpdate i args) s
        | None \<Rightarrow>
            bind (state_get (query_key q))
              (\<lambda>qid. bind (create (VisualizationsCreate qid args)) (state_set (viz_key q))) s)"

text \<open>\<^verbatim>\<open>_get_widget_options\<close>: the counter goes up first, whatever the query has.\<close>

definition get_widget_options :: "simple_query \<Rightarrow> widget_options prog" where
  "get_widget_options q s = (widget_options_at (pos s + 1) q, s\<lparr>pos := pos s + 1\<rparr>)"

definition install_widget :: "simple_query \<Rightarrow> string \<Rightarrow> unit prog" where
  "install_widget q ref =
     bind (state_get (dashboard_key ref))
       (\<lambda>dashboard_id. bind (get_widget_options q)
          (\<lambda>opts. bind (state_get (viz_key q))
             (\<lambda>vid. bind (create (WidgetsCreate dashboard_id opts vid))
                (state_set (widget_key q)))))"

subsection \<open>The desired queries of a folder and the data source\<close>

text \<open>A comprehension or loop of pure steps that stops at the first exception.\<close>

primrec collect :: "('a \<Rightarrow> exn + 'b) \<Rightarrow> 'a list \<Rightarrow> exn + 'b list" where
  "collect f [] = Inr []"
| "collect f (x # xs) =
     (case f x of
        Inl e \<Rightarrow> Inl e
      | Inr y \<Rightarrow> (case collect f xs of Inl e \<Rightarrow> Inl e | Inr ys \<Rightarrow> Inr (y # ys)))"

definition simple_query_of :: "(string \<Rightarrow> string) option \<Rightarrow> string \<Rightarrow> string \<Rightarrow> sql_file
    \<Rightarrow> exn + simple_query" where
  "simple_query_of callback folder ref f =
     (let text = (case callback of None \<Rightarrow> file_text f | Some g \<Rightarrow> g (file_text f));
          path = folder @ ''/'' @ file_name f
      in case parse_magic_comment path ''-- viz '' text of
           Inl e \<Rightarrow> Inl e
         | Inr v \<Rightarrow>
             (case parse_magic_comment path ''-- widget '' text of
                Inl e \<Rightarrow> Inl e
              | Inr w \<Rightarrow>
                  Inr \<lparr>dashboard_ref = ref, name = file_name f, query = text, viz = v,
                       widget = w\<rparr>))"

definition folder_path :: "dashboard_from_files \<Rightarrow> step_folder \<Rightarrow> dashboard_folder \<Rightarrow> string" where
  "folder_path s step_folder dashboard_folder =
     local_path s @ ''/'' @ step_name step_folder @ ''/'' @ folder_name dashboard_folder"

definition desired_queries :: "dashboard_from_files \<Rightarrow> step_folder \<Rightarrow> dashboard_folder \<Rightarrow> string
    \<Rightarrow> exn + simple_query list" where
  "desired_queries s step_folder dashboard_folder ref =
     collect (simple_query_of (query_text_callback s)
               (folder_path s step_folder dashboard_folder) ref)
       (sql_files dashboard_folder)"

definition dashboard_ref_of :: "step_folder \<Rightarrow> dashboard_folder \<Rightarrow> string" where
  "dashboard_ref_of step_folder dashboard_folder =
     lower (stem (step_name step_folder) @ ''_'' @ stem (folder_name dashboard_folder))"

definition dashboard_name_of :: "dashboard_from_files \<Rightarrow> step_folder \<Rightarrow> dashboard_folder \<Rightarrow> string" where
  "dashboard_name_of s step_folder dashboard_folder =
     name_prefix s @ '' '' @ title (stem (step_name step_folder))
       @ '' ('' @ title (stem (folder_name dashboard_folder)) @ '')''"

text \<open>
  \<^verbatim>\<open>_dashboard_data_source\<close>: the dictionary of the data sources keeps the
  last source of a warehouse; an unset or empty \<^verbatim>\<open>warehouse_id\<close> means the
  first warehouse.
\<close>

definition dashboard_data_source :: "string prog" where
  "dashboard_data_source =
     bind data_sources_list
       (\<lambda>sources. bind warehouses_list
          (\<lambda>whs s.
             case (case warehouse_id s of
                     None \<Rightarrow> (case whs of [] \<Rightarrow> None | w # _ \<Rightarrow> Some w)
                   | Some w \<Rightarrow>
                       if w \<noteq> [] then Some w
                       else (case whs of [] \<Rightarrow> None | w' # _ \<Rightarrow> Some w')) of
               None \<Rightarrow>
                 (Inl (ValueError
                    ''need either configured warehouse_id or an existing SQL warehouse''), s)
             | Some w \<Rightarrow>
                 (case map_of (rev sources) w of
                    None \<Rightarrow> (Inl (KeyError w), s)
                  | Some d \<Rightarrow> (Inr d, s))))"

subsection \<open>\<^verbatim>\<open>create_dashboards\<close> and \<^verbatim>\<open>validate\<close>\<close>

text \<open>The three calls made for one query of a dashboard folder.\<close>

definition install_artifacts :: "string \<Rightarrow> string \<Rightarrow> string \<Rightarrow> string \<Rightarrow> simple_query \<Rightarrow> unit prog" where
  "install_artifacts dashboard_name data_source_id parent ref q =
     bind (install_query q dashboard_name data_source_id parent)
       (\<lambda>_. bind (install_viz q) (\<lambda>_. install_widget q ref))"

text \<open>
  The body of the loop over the dashboard folders of a step; \<open>acc\<close> are
  \<^verbatim>\<open>dashboards\<close> and \<^verbatim>\<open>queries_per_dashboard\<close>.
\<close>

definition install_folder :: "step_folder \<Rightarrow> dashboard_folder
    \<Rightarrow> (string \<times> ident) list \<times> (string \<times> simple_query list) list
    \<Rightarrow> ((string \<times> ident) list \<times> (string \<times> simple_query list) list) prog" where
  "install_folder step_folder dashboard_folder acc s =
     (let dashboard_name = dashboard_name_of s step_folder dashboard_folder;
          ref = dashboard_ref_of step_folder dashboard_folder
      in bind (lift (desired_queries s step_folder dashboard_folder ref))
           (\<lambda>desired. bind installed_query_state
              (\<lambda>parent_folder_id. bind dashboard_data_source
                 (\<lambda>data_source_id. bind (install_dashboard dashboard_name parent_folder_id ref)
                    (\<lambda>_. bind (fold_prog
                                 (\<lambda>q _. install_artifacts dashboard_name data_source_id
                                           parent_folder_id ref q) desired ())
                       (\<lambda>_. bind (state_get (dashboard_key ref))
                          (\<lambda>d. lift (Inr (AList.update ref d (fst acc),
                                           AList.update ref desired (snd acc))))))))) s)"

definition create_dashboards :: "(string \<times> ident) list prog" where
  "create_dashboards s =
     bind (fold_prog (\<lambda>step_folder. fold_prog (install_folder step_folder)
                         (dashboard_folders step_folder))
             (local_folder s) ([], []))
       (\<lambda>acc. bind (store_query_state (snd acc)) (\<lambda>_. lift (Inr (fst acc)))) s"

text \<open>
  The \<^verbatim>\<open>try\<close> statement of \<^verbatim>\<open>validate\<close>: any exception of the two
  builders becomes an \<^verbatim>\<open>AssertionError\<close> that starts with the query's name.
\<close>

definition validate_query :: "simple_query \<Rightarrow> unit prog" where
  "validate_query q s =
     (case bind (lift (get_viz_options q)) (\<lambda>_. get_widget_options q) s of
        (Inl err, s') \<Rightarrow>
          (Inl (AssertionError (''Error in '' @ name q @ '': '' @ str_exn err)), s')
      | (Inr x, s') \<Rightarrow> (Inr (), s'))"

definition validate_folder :: "step_folder \<Rightarrow> dashboard_folder \<Rightarrow> unit prog" where
  "validate_folder step_folder dashboard_folder s =
     bind (lift (desired_queries s step_folder dashboard_folder
                   (dashboard_ref_of step_folder dashboard_folder)))
       (\<lambda>desired. fold_prog (\<lambda>q _. validate_query q) desired ()) s"

definition validate :: "unit prog" where
  "validate s =
     fold_prog (\<lambda>step_folder. fold_prog (\<lambda>dashboard_folder _.
                    validate_folder step_folder dashboard_folder)
                  (dashboard_folders step_folder))
       (local_folder s) () s"

subsection \<open>A remote service in memory\<close>

text \<open>
  The service the concrete runs below talk to. It keeps what was uploaded last (before
  any upload the state file does not exist), names a new object after what it is made
  from, attaches a widget to its dashboard until the widget is deleted, and has one
  warehouse with one data source. No call but the download of a missing file raises.
\<close>

fun last_upload :: "call list \<Rightarrow> (string \<times> ident) list option" where
  "last_upload [] = None"
| "last_upload (c # h) =
     (case last_upload h of
        Some d \<Rightarrow> Some d
      | None \<Rightarrow> (case c of WorkspaceUpload p d \<Rightarrow> Some d | _ \<Rightarrow> None))"

definition memory_id :: "call \<Rightarrow> ident" where
  "memory_id c =
     (case c of
        DashboardsCreate n p \<Rightarrow> ''d/'' @ n
      | QueriesCreate p d n q \<Rightarrow> ''q/'' @ n
      | VisualizationsCreate q a \<Rightarrow> ''v/'' @ q
      | WidgetsCreate d opts v \<Rightarrow> ''w/'' @ v
      | _ \<Rightarrow> [])"

fun attached :: "ident \<Rightarrow> call list \<Rightarrow> ident list \<Rightarrow> ident list" where
  "attached d [] ids = ids"
| "attached d (c # h) ids =
     attached d h
       (case c of
          WidgetsCreate d' opts v \<Rightarrow> if d' = d then ids @ [memory_id c] else ids
        | WidgetsDelete w \<Rightarrow> removeAll w ids
        | _ \<Rightarrow> ids)"

definition memory_remote :: "blob option \<Rightarrow> remote" where
  "memory_remote initial =
     \<lparr>raises = (\<lambda>h c.
         case c of
           WorkspaceDownload p \<Rightarrow>
             if last_upload h = None \<and> initial = None then Some ''RESOURCE_DOES_NOT_EXIST''
             else None
         | _ \<Rightarrow> None),
      downloaded = (\<lambda>h.
         case last_upload h of
           Some d \<Rightarrow> Json d
         | None \<Rightarrow> (case initial of Some b \<Rightarrow> b | None \<Rightarrow> NotJson)),
      object_id = (\<lambda>h. ''42''),
      data_sources = (\<lambda>h. [(''wh'', ''ds'')]),
      warehouses = (\<lambda>h. [''wh'']),
      dashboard_widgets = (\<lambda>h d. attached d h []),
      created_id = (\<lambda>h c. memory_id c)\<rparr>"

text \<open>A definition file: the two magic comments, then the query.\<close>

definition sql_text :: "string \<Rightarrow> string \<Rightarrow> string" where
  "sql_text viz_line widget_line =
     ''-- viz '' @ viz_line @ [CHR 0x0A] @ ''-- widget '' @ widget_line @ [CHR 0x0A]
       @ ''select 1''"

definition counter_file :: "string \<Rightarrow> sql_file" where
  "counter_file n =
     \<lparr>file_name = n,
      file_text = sql_text ''type=counter, name=T, value_column=a'' ''title=t''\<rparr>"

definition one_folder :: "step_folder list" where
  "one_folder =
     [\<lparr>step_name = ''s'', dashboard_folders =
        [\<lparr>folder_name = ''a'', sql_files = [counter_file ''x.sql'']\<rparr>]\<rparr>]"

definition two_folders :: "step_folder list" where
  "two_folders =
     [\<lparr>step_name = ''s'', dashboard_folders =
        [\<lparr>folder_name = ''a'', sql_files = [counter_file ''x.sql'']\<rparr>,
         \<lparr>folder_name = ''b'', sql_files = [counter_file ''y.sql'']\<rparr>]\<rparr>]"

definition installer :: "blob option \<Rightarrow> step_folder list \<Rightarrow> dashboard_from_files" where
  "installer initial folders = init (memory_remote initial) ''l'' folders ''r'' ''P'' None None"

subsection \<open>The vocabulary of the specification\<close>

text \<open>
  The specification's \<^verbatim>\<open>derive_key(r, k)\<close>, the key \<^verbatim>\<open>"{ref}:{kind}"\<close>
  of a state entry, and its four kinds.
\<close>

definition derive_key :: "string \<Rightarrow> string \<Rightarrow> string" where
  "derive_key r k = r @ '':'' @ k"

definition kinds :: "string list" where
  "kinds = [''dashboard_id'', ''query_id'', ''viz_id'', ''widget_id'']"

text \<open>What stands after the first colon of a key.\<close>

definition key_kind :: "string \<Rightarrow> string" where
  "key_kind k = drop (Suc (length (takeWhile (\<lambda>c. c \<noteq> CHR '':'') k))) k"

text \<open>
  What the save step is expected to do with the entries that are not desired: the
  deletion it attempts for an entry (by the kind after the colon), the deletions for a
  whole state in its order, and the failures it logs, each deletion being tried after
  the earlier ones whatever they did.
\<close>

definition deletion_call :: "string \<times> ident \<Rightarrow> call list" where
  "deletion_call kv =
     (case destructors (key_kind (fst kv)) of
        Some destructor \<Rightarrow> [destructor (snd kv)]
      | None \<Rightarrow> [])"

definition deletion_calls :: "string list \<Rightarrow> (string \<times> ident) list \<Rightarrow> call list" where
  "deletion_calls desired items =
     concat (map deletion_call (filter (\<lambda>kv. fst kv \<notin> set desired) items))"

fun deletion_logs :: "remote \<Rightarrow> call list \<Rightarrow> string list \<Rightarrow> (string \<times> ident) list
    \<Rightarrow> log_record list" where
  "deletion_logs w h desired [] = []"
| "deletion_logs w h desired (kv # items) =
     (if fst kv \<in> set desired then deletion_logs w h desired items
      else (case destructors (key_kind (fst kv)) of
              None \<Rightarrow> deletion_logs w h desired items
            | Some destructor \<Rightarrow>
                (case raises w h (destructor (snd kv)) of
                   Some code \<Rightarrow> [InfoDeleteFailed (key_kind (fst kv)) (snd kv) code]
                 | None \<Rightarrow> [])
                @ deletion_logs w (h @ [destructor (snd kv)]) desired items))"

subsection \<open>Concrete installations\<close>

text \<open>
  A folder whose query file has a colon in its name; a service that has lost the query
  \<^verbatim>\<open>q2\<close>; and an installer whose state still holds the three entries of a
  query file that is gone, beside a desired query and a dashboard of a folder that is
  gone.
\<close>

definition colon_folder :: "step_folder list" where
  "colon_folder =
     [\<lparr>step_name = ''s'', dashboard_folders =
        [\<lparr>folder_name = ''a'', sql_files = [counter_file ''x:y.sql'']\<rparr>]\<rparr>]"

definition flaky_remote :: remote where
  "flaky_remote =
     (memory_remote None)
       \<lparr>raises := (\<lambda>h c. if c = QueriesDelete ''q2'' then Some ''RESOURCE_DOES_NOT_EXIST''
                          else None)\<rparr>"

definition query_x :: simple_query where
  "query_x =
     \<lparr>dashboard_ref = ''s_a'', name = ''x.sql'', query = ''select 1'', viz = [], widget = []\<rparr>"

definition stale_installer :: dashboard_from_files where
  "stale_installer =
     (init flaky_remote ''l'' [] ''r'' ''P'' None None)
       \<lparr>state := [(''s_a:dashboard_id'', ''d1''), (''s_a_x.sql:query_id'', ''q1''),
                  (''s_a_old.sql:query_id'', ''q2''), (''s_a_old.sql:viz_id'', ''v2''),
                  (''s_a_old.sql:widget_id'', ''w2''), (''s_z:dashboard_id'', ''d9'')]\<rparr>"

text \<open>
  The folders in the order the two loops of \<^verbatim>\<open>create_dashboards\<close> and
  \<^verbatim>\<open>validate\<close> visit them, and the queries a folder defines.
\<close>

definition folders :: "step_folder list \<Rightarrow> (step_folder \<times> dashboard_folder) list" where
  "folders steps = concat (map (\<lambda>st. map (Pair st) (dashboard_folders st)) steps)"

definition desired_of :: "dashboard_from_files \<Rightarrow> step_folder \<times> dashboard_folder
    \<Rightarrow> exn + simple_query list" where
  "desired_of s p = desired_queries s (fst p) (snd p) (dashboard_ref_of (fst p) (snd p))"

text \<open>
  The first exception the two builders raise for a query, if one does (the widget
  builder raises the same whatever the counter is).
\<close>

definition builder_error :: "simple_query \<Rightarrow> exn option" where
  "builder_error q =
     (case get_viz_options q of
        Inl e \<Rightarrow> Some e
      | Inr a \<Rightarrow> (case widget_options_at 0 q of Inl e \<Rightarrow> Some e | Inr opts \<Rightarrow> None))"

text \<open>The message of \<^verbatim>\<open>_get_viz_options\<close> for a type it does not know.\<close>

definition unknown_viz_type :: "simple_query \<Rightarrow> string" where
  "unknown_viz_type q =
     query q @ '': unknown viz type: '' @ (case viz_type q of None \<Rightarrow> ''None'' | Some t \<Rightarrow> t)"

text \<open>
  The calls \<^verbatim>\<open>_install_query\<close> makes from a state: the update of the recorded
  query, or the creation and, if that returned, the permissions of the new query.
\<close>

definition query_calls :: "string \<Rightarrow> string \<Rightarrow> string \<Rightarrow> simple_query \<Rightarrow> dashboard_from_files
    \<Rightarrow> call list" where
  "query_calls dashboard_name data_source_id parent q s =
     (case map_of (state s) (query_key q) of
        Some i \<Rightarrow> [QueriesUpdate i data_source_id (dashboard_name @ '' - '' @ name q) (query q)]
      | None \<Rightarrow>
          (let c = QueriesCreate parent data_source_id (dashboard_name @ '' - '' @ name q)
                     (query q)
           in c # (case raises (ws s) (calls s) c of
                     Some code \<Rightarrow> []
                   | None \<Rightarrow> [PermissionsSet ''queries'' (created_id (ws s) (calls s) c)
                                ''users'' ''CAN_RUN''])))"

text \<open>Hoare triples for methods: what holds when the method returns, and when it raises.\<close>

definition hoare :: "(dashboard_from_files \<Rightarrow> bool) \<Rightarrow> 'a prog
    \<Rightarrow> ('a \<Rightarrow> dashboard_from_files \<Rightarrow> bool) \<Rightarrow> (exn \<Rightarrow> dashboard_from_files \<Rightarrow> bool) \<Rightarrow> bool" where
  "hoare P m Q E \<longleftrightarrow>
     (\<forall>s r s'. P s \<and> m s = (r, s') \<longrightarrow> (case r of Inl e \<Rightarrow> E e s' | Inr x \<Rightarrow> Q x s'))"

text \<open>Both builders return for every query of a folder whose definitions can be read.\<close>

definition folder_passes :: "dashboard_from_files \<Rightarrow> step_folder \<times> dashboard_folder \<Rightarrow> bool" where
  "folder_passes s p \<longleftrightarrow>
     (\<exists>qs. desired_of s p = Inr qs \<and> (\<forall>q\<in>set qs. builder_error q = None))"

text \<open>
  A folder with two files of the unsupported visualization type \<^verbatim>\<open>pie\<close>, and
  a query of that type.
\<close>

definition pie_folder :: "string \<Rightarrow> step_folder list" where
  "pie_folder n =
     [\<lparr>step_name = ''s'', dashboard_folders =
        [\<lparr>folder_name = n, sql_files =
           [\<lparr>file_name = ''x.sql'', file_text = sql_text ''type=pie, name=T'' ''title=t''\<rparr>,
            \<lparr>file_name = ''y.sql'', file_text = sql_text ''type=pie, name=U'' ''title=u''\<rparr>]\<rparr>]\<rparr>]"

definition query_pie :: simple_query where
  "query_pie =
     \<lparr>dashboard_ref = ''s_a'', name = ''x.sql'', query = ''select 1'',
      viz = [(''type'', ''pie'')], widget = []\<rparr>"

text \<open>
  A folder that passes, then a folder with two files that fail: the first has a
  \<^verbatim>\<open>row\<close> that is no integer, the second an unsupported visualization type.
\<close>

definition two_errors :: "step_folder list" where
  "two_errors =
     [\<lparr>step_name = ''s'', dashboard_folders =
        [\<lparr>folder_name = ''a'', sql_files = [counter_file ''x.sql'']\<rparr>,
         \<lparr>folder_name = ''b'', sql_files =
            [\<lparr>file_name = ''y.sql'',
              file_text = sql_text ''type=counter, name=T, value_column=a'' ''row=abc''\<rparr>,
             \<lparr>file_name = ''z.sql'',
              file_text = sql_text ''type=pie, name=T'' ''title=t''\<rparr>]\<rparr>]\<rparr>]"

text \<open>
  A later run: a new object over the given folders, talking to the same service after
  the calls of an earlier object. The folder \<^verbatim>\<open>s/b\<close> is installed first;
  then the folder \<^verbatim>\<open>s/a\<close> is added and the installer runs again, and once
  more with nothing changed.
\<close>

definition next_run :: "step_folder list \<Rightarrow> dashboard_from_files \<Rightarrow> dashboard_from_files" where
  "next_run fs s = (installer None fs)\<lparr>calls := calls s\<rparr>"

definition folder_b :: "step_folder list" where
  "folder_b =
     [\<lparr>step_name = ''s'', dashboard_folders =
        [\<lparr>folder_name = ''b'', sql_files = [counter_file ''y.sql'']\<rparr>]\<rparr>]"

definition installed_b :: dashboard_from_files where
  "installed_b = snd (create_dashboards (installer None folder_b))"

definition added_a :: dashboard_from_files where
  "added_a = snd (create_dashboards (next_run two_folders installed_b))"

definition rerun_ab :: dashboard_from_files where
  "rerun_ab = snd (create_dashboards (next_run two_folders added_a))"

definition is_download :: "call \<Rightarrow> bool" where
  "is_download c = (case c of WorkspaceDownload p \<Rightarrow> True | _ \<Rightarrow> False)"

definition entries_a :: "(string \<times> ident) list" where
  "entries_a =
     [(''s_a:dashboard_id'', ''d/P S (A)''), (''s_a_x.sql:query_id'', ''q/P S (A) - x.sql''),
      (''s_a_x.sql:viz_id'', ''v/q/P S (A) - x.sql''),
      (''s_a_x.sql:widget_id'', ''w/v/q/P S (A) - x.sql'')]"

definition entries_b :: "(string \<times> ident) list" where
  "entries_b =
     [(''s_b:dashboard_id'', ''d/P S (B)''), (''s_b_y.sql:query_id'', ''q/P S (B) - y.sql''),
      (''s_b_y.sql:viz_id'', ''v/q/P S (B) - y.sql''),
      (''s_b_y.sql:widget_id'', ''w/v/q/P S (B) - y.sql'')]"

subsection \<open>What a method leaves alone\<close>

text \<open>
  The calls that neither write the state file nor create a widget; the fields of the
  object that no method assigns; and a step from \<open>s\<close> to \<open>t\<close> that only adds
  calls satisfying \<open>P\<close> and keeps the counter and those fields. \<open>keeps P m\<close>:
  every run of the method \<open>m\<close> is such a step.
\<close>

definition is_upload :: "call \<Rightarrow> bool" where
  "is_upload c = (case c of WorkspaceUpload p d \<Rightarrow> True | _ \<Rightarrow> False)"

definition is_widget_create :: "call \<Rightarrow> bool" where
  "is_widget_create c = (case c of WidgetsCreate d opts v \<Rightarrow> True | _ \<Rightarrow> False)"

definition quiet_call :: "call \<Rightarrow> bool" where
  "quiet_call c \<longleftrightarrow> \<not> is_upload c \<and> \<not> is_widget_create c"

definition same_config :: "dashboard_from_files \<Rightarrow> dashboard_from_files \<Rightarrow> bool" where
  "same_config s t \<longleftrightarrow>
     ws t = ws s \<and> local_path t = local_path s \<and> local_folder t = local_folder s
     \<and> remote_folder t = remote_folder s \<and> name_prefix t = name_prefix s
     \<and> query_text_callback t = query_text_callback s \<and> warehouse_id t = warehouse_id s"

definition quiet :: "(call \<Rightarrow> bool) \<Rightarrow> dashboard_from_files \<Rightarrow> dashboard_from_files \<Rightarrow> bool" where
  "quiet P s t \<longleftrightarrow>
     (\<exists>new. calls t = calls s @ new \<and> list_all P new) \<and> pos t = pos s \<and> same_config s t"

definition keeps :: "(call \<Rightarrow> bool) \<Rightarrow> 'a prog \<Rightarrow> bool" where
  "keeps P m \<longleftrightarrow> (\<forall>s r t. m s = (r, t) \<longrightarrow> quiet P s t)"

subsection \<open>The widgets a run creates\<close>

text \<open>
  The options of the \<^verbatim>\<open>widgets.create\<close> calls of a trace, in order, and their
  rows; the calls a run added to the trace; the queries of the folders whose files
  parse, in the order the run visits them.
\<close>

definition created_widgets :: "call list \<Rightarrow> widget_options list" where
  "created_widgets h =
     concat (map (\<lambda>c. case c of WidgetsCreate d opts v \<Rightarrow> [opts] | _ \<Rightarrow> []) h)"

definition widget_rows :: "call list \<Rightarrow> int list" where
  "widget_rows h = map (\<lambda>opts. row (position opts)) (created_widgets h)"

definition new_calls :: "dashboard_from_files \<Rightarrow> dashboard_from_files \<Rightarrow> call list" where
  "new_calls s t = drop (length (calls s)) (calls t)"

definition queries_of :: "dashboard_from_files \<Rightarrow> (step_folder \<times> dashboard_folder) list
    \<Rightarrow> simple_query list" where
  "queries_of s ps = concat (map (\<lambda>p. case desired_of s p of Inl e \<Rightarrow> [] | Inr qs \<Rightarrow> qs) ps)"

definition all_desired :: "dashboard_from_files \<Rightarrow> simple_query list" where
  "all_desired s = queries_of s (folders (local_folder s))"

text \<open>
  What \<^verbatim>\<open>_get_widget_options\<close> returns for each query of a list in turn when
  the counter starts at \<open>p\<close>.
\<close>

fun options_from :: "int \<Rightarrow> simple_query list \<Rightarrow> (exn + widget_options) list" where
  "options_from p [] = []"
| "options_from p (q # qs) = widget_options_at (p + 1) q # options_from (p + 1) qs"

text \<open>
  \<open>track s0 qs t\<close>: since \<open>s0\<close>, the widgets created are those of the queries
  \<open>qs\<close>, each with the options the counter gave it; \<open>counted\<close>: and the counter
  moved once for each; \<open>aborted\<close>: this holds for some first queries of the list.
\<close>

definition track :: "dashboard_from_files \<Rightarrow> simple_query list \<Rightarrow> dashboard_from_files \<Rightarrow> bool" where
  "track s0 qs t \<longleftrightarrow>
     (\<exists>new. calls t = calls s0 @ new
        \<and> map Inr (created_widgets new) = options_from (pos s0) qs)
     \<and> same_config s0 t"

definition counted :: "dashboard_from_files \<Rightarrow> simple_query list \<Rightarrow> dashboard_from_files \<Rightarrow> bool" where
  "counted s0 qs t \<longleftrightarrow> track s0 qs t \<and> pos t = pos s0 + int (length qs)"

definition aborted :: "dashboard_from_files \<Rightarrow> simple_query list \<Rightarrow> dashboard_from_files \<Rightarrow> bool" where
  "aborted s0 qs t \<longleftrightarrow> (\<exists>n\<le>length qs. track s0 (take n qs) t)"

text \<open>Three definition files without a \<^verbatim>\<open>row\<close>, in two dashboard folders.\<close>

definition three_widgets :: "step_folder list" where
  "three_widgets =
     [\<lparr>step_name = ''s'', dashboard_folders =
        [\<lparr>folder_name = ''a'', sql_files = [counter_file ''x.sql'', counter_file ''y.sql'']\<rparr>,
         \<lparr>folder_name = ''b'', sql_files = [counter_file ''z.sql'']\<rparr>]\<rparr>]"

subsection \<open>A run over what an earlier run recorded\<close>

text \<open>
  The create calls for a dashboard, a query and a visualization; the calls of a run that
  reuses what is recorded: no such creation, and no upload.
\<close>

definition creates :: "call \<Rightarrow> bool" where
  "creates c =
     (case c of
        DashboardsCreate n p \<Rightarrow> True
      | QueriesCreate p d n q \<Rightarrow> True
      | VisualizationsCreate q a \<Rightarrow> True
      | _ \<Rightarrow> False)"

definition reuse_call :: "call \<Rightarrow> bool" where
  "reuse_call c \<longleftrightarrow> \<not> is_upload c \<and> \<not> creates c"

text \<open>
  The entries of the state that the loop of \<^verbatim>\<open>_installed_query_state\<close> looks
  up with \<^verbatim>\<open>queries.get\<close>: the key splits in two at the colon and its second
  part is \<^verbatim>\<open>query_id\<close>.
\<close>

definition swept :: "string \<times> ident \<Rightarrow> bool" where
  "swept kv =
     (case unpack2 (split_str '':'' (fst kv)) of
        Inl e \<Rightarrow> False
      | Inr (u, kind) \<Rightarrow> fst kv \<noteq> ''dashboard_id'' \<and> kind = ''query_id'')"

text \<open>
  \<open>reads s S\<close>: as long as nothing is uploaded, the service lets the object download
  its state file, the file decodes to the dictionary \<open>S\<close>, and the service knows the
  query of every entry of \<open>S\<close> that the loop looks up. Nothing is asked of
  \<^verbatim>\<open>queries.get\<close> on the other identifiers of \<open>S\<close>.
\<close>

definition reads :: "dashboard_from_files \<Rightarrow> (string \<times> ident) list \<Rightarrow> bool" where
  "reads s S \<longleftrightarrow>
     (\<forall>new. list_all (\<lambda>c. \<not> is_upload c) new \<longrightarrow>
        raises (ws s) (calls s @ new) (WorkspaceDownload (query_state s)) = None
        \<and> downloaded (ws s) (calls s @ new) = Json S
        \<and> (\<forall>kv\<in>set S. swept kv \<longrightarrow>
              raises (ws s) (calls s @ new) (QueriesGet (snd kv)) = None))"

text \<open>
  The reference of a dashboard folder, and the state keys of the dashboards, queries and
  visualizations of the folders of an object.
\<close>

definition ref_of :: "step_folder \<times> dashboard_folder \<Rightarrow> string" where
  "ref_of p = dashboard_ref_of (fst p) (snd p)"

definition recorded_keys :: "dashboard_from_files \<Rightarrow> string set" where
  "recorded_keys s =
     (\<lambda>p. dashboard_key (ref_of p)) ` set (folders (local_folder s))
     \<union> query_key ` set (all_desired s) \<union> viz_key ` set (all_desired s)"

text \<open>
  \<open>extends s t\<close>: since \<open>s\<close> the object made reusing calls only.
  \<open>reusing S s t\<close>: and its state, a dictionary, holds what \<open>S\<close> holds for those
  keys.
\<close>

definition extends :: "dashboard_from_files \<Rightarrow> dashboard_from_files \<Rightarrow> bool" where
  "extends s t \<longleftrightarrow>
     (\<exists>new. calls t = calls s @ new \<and> list_all reuse_call new) \<and> same_config s t"

definition reusing :: "(string \<times> ident) list \<Rightarrow> dashboard_from_files \<Rightarrow> dashboard_from_files
    \<Rightarrow> bool" where
  "reusing S s t \<longleftrightarrow>
     extends s t \<and> distinct (map fst (state t))
     \<and> (\<forall>k\<in>recorded_keys s. map_of (state t) k = map_of S k)"

text \<open>
  \<open>cleans s t d\<close>: among the calls made since \<open>s\<close>, the dashboard \<open>d\<close> is
  fetched and every widget the service lists for it at that moment is deleted, in order.
  \<open>updates S q h\<close>: the calls \<open>h\<close> update the query of \<open>q\<close> under the
  identifier \<open>S\<close> records for it, with the name and the text of \<open>q\<close>, and its
  visualization under the identifier \<open>S\<close> records, with the arguments built from
  \<open>q\<close>.
  \<open>uploads s t up\<close>: the calls made since \<open>s\<close> end with the upload of \<open>up\<close>
  to the state file, and it is the only upload.
\<close>

definition cleans :: "dashboard_from_files \<Rightarrow> dashboard_from_files \<Rightarrow> ident \<Rightarrow> bool" where
  "cleans s t d \<longleftrightarrow>
     (\<exists>h rest. new_calls s t =
        h @ DashboardsGet d # map WidgetsDelete (dashboard_widgets (ws s) (calls s @ h) d) @ rest)"

definition updates :: "(string \<times> ident) list \<Rightarrow> simple_query \<Rightarrow> call list \<Rightarrow> bool" where
  "updates S q h \<longleftrightarrow>
     (\<exists>v ds dn. map_of S (query_key q) = Some v
        \<and> QueriesUpdate v ds (dn @ '' - '' @ name q) (query q) \<in> set h)
     \<and> (\<exists>v args. map_of S (viz_key q) = Some v \<and> get_viz_options q = Inr args
        \<and> VisualizationsUpdate v args \<in> set h)"

definition uploads :: "dashboard_from_files \<Rightarrow> dashboard_from_files \<Rightarrow> (string \<times> ident) list
    \<Rightarrow> bool" where
  "uploads s t up \<longleftrightarrow>
     (\<exists>before. new_calls s t = before @ [WorkspaceUpload (query_state s) up]
        \<and> list_all (\<lambda>c. \<not> is_upload c) before)"

text \<open>
  The dictionary \<^verbatim>\<open>queries_per_dashboard\<close> after the folders \<open>ps\<close>, and what holds
  once \<open>ps\<close> are done: the dictionary of the dashboards has the identifiers \<open>S\<close>
  records, the recorded dashboards are cleaned and the queries of \<open>ps\<close> updated.
\<close>

definition queries_per_dashboard :: "dashboard_from_files
    \<Rightarrow> (step_folder \<times> dashboard_folder) list \<Rightarrow> (string \<times> simple_query list) list" where
  "queries_per_dashboard s ps =
     fold (\<lambda>p. AList.update (ref_of p) (case desired_of s p of Inl e \<Rightarrow> [] | Inr qs \<Rightarrow> qs))
       ps []"

definition reused :: "(string \<times> ident) list \<Rightarrow> dashboard_from_files
    \<Rightarrow> (step_folder \<times> dashboard_folder) list
    \<Rightarrow> (string \<times> ident) list \<times> (string \<times> simple_query list) list
    \<Rightarrow> dashboard_from_files \<Rightarrow> bool" where
  "reused S s ps acc t \<longleftrightarrow>
     extends s t \<and> (ps \<noteq> [] \<longrightarrow> reusing S s t)
     \<and> (\<forall>p\<in>set ps. map_of (fst acc) (ref_of p) = map_of S (dashboard_key (ref_of p)))
     \<and> snd acc = queries_per_dashboard s ps
     \<and> (\<forall>p\<in>set ps. \<forall>d. map_of S (dashboard_key (ref_of p)) = Some d \<longrightarrow> cleans s t d)
     \<and> (\<forall>q\<in>set (queries_of s ps). updates S q (new_calls s t))"

text \<open>
  A service whose \<^verbatim>\<open>queries.get\<close> knows query identifiers only, and two runs over
  the same two folders against it: the first from an empty workspace, the second by a new
  object after it.
\<close>

definition strict_remote :: remote where
  "strict_remote =
     (memory_remote None)
       \<lparr>raises := (\<lambda>h c.
          case c of
            QueriesGet i \<Rightarrow> if take 2 i = ''q/'' then None else Some ''RESOURCE_DOES_NOT_EXIST''
          | _ \<Rightarrow> raises (memory_remote None) h c)\<rparr>"

definition first_run :: dashboard_from_files where
  "first_run = snd (create_dashboards ((installer None two_folders)\<lparr>ws := strict_remote\<rparr>))"

definition second_run :: dashboard_from_files where
  "second_run = (installer None two_folders)\<lparr>ws := strict_remote, calls := calls first_run\<rparr>"

section \<open>Properties\<close>

subsection \<open>Running a method\<close>

lemma bind_Inl: "m s = (Inl e, s') \<Longrightarrow> bind m f s = (Inl e, s')"
  by (simp add: bind_def)

lemma bind_Inr: "m s = (Inr x, s') \<Longrightarrow> bind m f s = f x s'"
  by (simp add: bind_def)

lemma bind_lift_Inr: "bind (lift (Inr x)) f s = f x s"
  by (simp add: bind_def lift_def)

lemma bind_lift_Inl: "bind (lift (Inl e)) f s = (Inl e, s)"
  by (simp add: bind_def lift_def)

lemma invoke_cases:
  "invoke c s = (Inr (), s\<lparr>calls := calls s @ [c]\<rparr>) \<and> raises (ws s) (calls s) c = None
   \<or> (\<exists>code. invoke c s = (Inl (DatabricksError code), s\<lparr>calls := calls s @ [c]\<rparr>)
        \<and> raises (ws s) (calls s) c = Some code)"
  by (simp add: invoke_def split: option.splits)

subsection \<open>Splitting keys\<close>

lemma split_str_no_sep: "c \<notin> set s \<Longrightarrow> split_str [c] s = [s]"
  by (induction s) auto

lemma split_str_at_sep: "c \<notin> set r \<Longrightarrow> split_str [c] (r @ c # t) = r # split_str [c] t"
  by (induction r) auto

lemma length_split_str: "length (split_str [c] s) = Suc (count_list s c)"
  by (induction s) (auto split: list.splits)

lemma unpack2_ValueError: "length xs \<noteq> 2 \<Longrightarrow> \<exists>m. unpack2 xs = Inl (ValueError m)"
  by (cases xs rule: unpack2.cases) auto

lemma one_colon_decompose:
  "count_list k c = 1 \<Longrightarrow> \<exists>r t. k = r @ c # t \<and> c \<notin> set r \<and> c \<notin> set t"
proof (induction k)
  case Nil
  then show ?case by simp
next
  case (Cons x k)
  show ?case
  proof (cases "x = c")
    case True
    with Cons.prems have "count_list k c = 0" by simp
    then have "c \<notin> set k" by (simp add: count_list_0_iff)
    with True have "x # k = [] @ c # k \<and> c \<notin> set [] \<and> c \<notin> set k" by simp
    then show ?thesis by blast
  next
    case False
    with Cons.prems have "count_list k c = 1" by simp
    then obtain r t where "k = r @ c # t" "c \<notin> set r" "c \<notin> set t"
      using Cons.IH by blast
    with False have "x # k = (x # r) @ c # t \<and> c \<notin> set (x # r) \<and> c \<notin> set t" by simp
    then show ?thesis by blast
  qed
qed

lemma key_kind_append:
  assumes "CHR '':'' \<notin> set r"
  shows "key_kind (r @ CHR '':'' # t) = t"
proof -
  have "takeWhile (\<lambda>c. c \<noteq> CHR '':'') (r @ CHR '':'' # t) = r"
    using assms by (subst takeWhile_append2) auto
  then show ?thesis by (simp add: key_kind_def)
qed

lemma one_colon_split:
  assumes "count_list k (CHR '':'') = 1"
  shows "\<exists>r. split_str '':'' k = [r, key_kind k]"
proof -
  from one_colon_decompose [OF assms]
  obtain r t where k: "k = r @ CHR '':'' # t" and r: "CHR '':'' \<notin> set r"
    and t: "CHR '':'' \<notin> set t"
    by auto
  have "split_str '':'' (r @ CHR '':'' # t) = [r, t]"
    using r t by (simp add: split_str_at_sep split_str_no_sep)
  moreover have "key_kind (r @ CHR '':'' # t) = t" using r by (rule key_kind_append)
  ultimately show ?thesis unfolding k by simp
qed

lemma kinds_no_colon: "k \<in> set kinds \<Longrightarrow> CHR '':'' \<notin> set k"
  by (auto simp: kinds_def)

lemma derive_key_inject:
  assumes "CHR '':'' \<notin> set k" "CHR '':'' \<notin> set k'" "derive_key r k = derive_key r' k'"
  shows "r = r' \<and> k = k'"
proof -
  from assms(3) have "rev (r @ CHR '':'' # k) = rev (r' @ CHR '':'' # k')"
    by (simp add: derive_key_def)
  then have e: "rev k @ CHR '':'' # rev r = rev k' @ CHR '':'' # rev r'" by simp
  have "takeWhile (\<lambda>c. c \<noteq> CHR '':'') (rev k @ CHR '':'' # rev r) = rev k"
    using assms(1) by (auto simp: takeWhile_tail)
  moreover have "takeWhile (\<lambda>c. c \<noteq> CHR '':'') (rev k' @ CHR '':'' # rev r') = rev k'"
    using assms(2) by (auto simp: takeWhile_tail)
  ultimately have "rev k = rev k'" using e by simp
  then have "k = k'" by simp
  with assms(3) show ?thesis by (simp add: derive_key_def)
qed

lemma derive_key_split:
  "CHR '':'' \<notin> set r \<Longrightarrow> CHR '':'' \<notin> set k \<Longrightarrow> split_str '':'' (derive_key r k) = [r, k]"
  by (simp add: derive_key_def split_str_at_sep split_str_no_sep)

subsection \<open>State keys (claim C9)\<close>

text \<open>
  C9, as stated, fails: the code takes a key apart with \<^verbatim>\<open>_, name = k.split(":")\<close>,
  and the reference of a query holds the file's name, which may hold a colon. For the file
  \<^verbatim>\<open>x:y.sql\<close> of the folder \<^verbatim>\<open>s_a\<close> the split has three parts, not the
  reference and the kind, and the unpacking raises.
\<close>

theorem derive_key_colon_counterexample:
  "query_key \<lparr>dashboard_ref = ''s_a'', name = ''x:y.sql'', query = [], viz = [], widget = []\<rparr>
     = derive_key ''s_a_x:y.sql'' ''query_id''
   \<and> split_str '':'' (derive_key ''s_a_x:y.sql'' ''query_id'') \<noteq> [''s_a_x:y.sql'', ''query_id'']
   \<and> unpack2 (split_str '':'' (derive_key ''s_a_x:y.sql'' ''query_id''))
       = Inl (ValueError ''too many values to unpack (expected 2)'')"
  by (simp add: query_key_def derive_key_def)

text \<open>
  C9, amended: the four keys the code builds are \<open>derive_key\<close> of a reference and a
  kind; for every reference, two of these keys are equal only if reference and kind are;
  and for a reference without a colon the split on the colon, unpacked as the code
  unpacks it, gives back the reference and the kind.
\<close>

theorem derive_key_unique_and_splits:
  "dashboard_key ref = derive_key ref ''dashboard_id''
   \<and> query_key q = derive_key (dashboard_ref q @ ''_'' @ name q) ''query_id''
   \<and> viz_key q = derive_key (dashboard_ref q @ ''_'' @ name q) ''viz_id''
   \<and> widget_key q = derive_key (dashboard_ref q @ ''_'' @ name q) ''widget_id''
   \<and> (k \<in> set kinds \<and> k' \<in> set kinds \<and> derive_key r k = derive_key r' k' \<longrightarrow> r = r' \<and> k = k')
   \<and> (k \<in> set kinds \<and> CHR '':'' \<notin> set r
        \<longrightarrow> unpack2 (split_str '':'' (derive_key r k)) = Inr (r, k))"
proof -
  have "k \<in> set kinds \<and> k' \<in> set kinds \<and> derive_key r k = derive_key r' k' \<longrightarrow> r = r' \<and> k = k'"
    using derive_key_inject [of k k' r r'] kinds_no_colon by blast
  moreover have "k \<in> set kinds \<and> CHR '':'' \<notin> set r
      \<longrightarrow> unpack2 (split_str '':'' (derive_key r k)) = Inr (r, k)"
    using derive_key_split [of r k] kinds_no_colon [of k] by simp
  ultimately show ?thesis
    by (simp add: dashboard_key_def query_key_def viz_key_def widget_key_def derive_key_def)
qed

theorem derive_key_unique_and_splits_witness:
  "''viz_id'' \<in> set kinds \<and> CHR '':'' \<notin> set ''s_a_x.sql''
   \<and> unpack2 (split_str '':'' (derive_key ''s_a_x.sql'' ''viz_id'')) = Inr (''s_a_x.sql'', ''viz_id'')
   \<and> derive_key ''s_a_x.sql'' ''viz_id'' = derive_key ''s_a_x.sql'' ''viz_id''
   \<and> viz_key \<lparr>dashboard_ref = ''s_a'', name = ''x.sql'', query = [], viz = [], widget = []\<rparr>
       = derive_key ''s_a_x.sql'' ''viz_id''"
  using derive_key_unique_and_splits
    [of "''s_a''" "\<lparr>dashboard_ref = ''s_a'', name = ''x.sql'', query = [], viz = [], widget = []\<rparr>"
        "''viz_id''" "''viz_id''" "''s_a_x.sql''" "''s_a_x.sql''"]
  by (simp add: kinds_def)

subsection \<open>A definition file without a magic comment (claim C6)\<close>

text \<open>
  C6: a file with no line that starts with the marker should be refused with a
  \<^verbatim>\<open>SyntaxError\<close> that names the file and the marker, and
  \<^verbatim>\<open>_parse_magic_comment\<close> has the statement that raises it. It is never
  reached: \<^verbatim>\<open>next\<close> on the exhausted generator raises
  \<^verbatim>\<open>StopIteration\<close> first, whose text is empty.
\<close>

theorem parse_magic_comment_missing_marker:
  assumes "\<forall>l \<in> set (splitlines text). \<not> startswith l magic_comment"
  shows "parse_magic_comment f magic_comment text = Inl StopIteration
         \<and> str_exn StopIteration = []"
proof -
  from assms have "filter (\<lambda>l. startswith l magic_comment) (splitlines text) = []"
    by (simp add: filter_empty_conv)
  then show ?thesis by (simp add: parse_magic_comment_def)
qed

theorem parse_magic_comment_missing_marker_witness:
  "splitlines ''select 1'' = [''select 1'']
   \<and> \<not> startswith ''select 1'' ''-- viz ''
   \<and> parse_magic_comment ''l/s/a/x.sql'' ''-- viz '' ''select 1'' = Inl StopIteration"
  using parse_magic_comment_missing_marker [of "''select 1''" "''-- viz ''" "''l/s/a/x.sql''"]
  by (simp add: splitlines_def linebreak_def)

subsection \<open>The loops over the state\<close>

lemma fold_prog_Cons:
  "fold_prog f (x # xs) acc s =
     (case f x acc s of (Inl e, s') \<Rightarrow> (Inl e, s') | (Inr a, s') \<Rightarrow> fold_prog f xs a s')"
  by (simp add: bind_def)

lemma fold_prog_Nil: "fold_prog f [] acc s = (Inr acc, s)"
  by (simp add: lift_def)

declare fold_prog.simps [simp del]

lemma store_entry_desired:
  "fst kv \<in> set desired \<Longrightarrow>
     store_entry desired kv acc s = (Inr (AList.update (fst kv) (snd kv) acc), s)"
  by (simp add: store_entry_def)

lemma store_entry_orphan:
  assumes "fst kv \<notin> set desired" "count_list (fst kv) (CHR '':'') = 1"
  shows "store_entry desired kv acc s =
     (Inr acc, s\<lparr>calls := calls s @ deletion_call kv,
                 logs := logs s @ deletion_logs (ws s) (calls s) desired [kv]\<rparr>)"
proof -
  from one_colon_split [OF assms(2)] obtain r where
    r: "split_str '':'' (fst kv) = [r, key_kind (fst kv)]" by auto
  show ?thesis
  proof (cases "destructors (key_kind (fst kv))")
    case None
    then show ?thesis using assms(1) r by (simp add: store_entry_def deletion_call_def)
  next
    case (Some d)
    then show ?thesis using assms(1) r
      by (simp add: store_entry_def deletion_call_def invoke_def split: option.splits)
  qed
qed

lemma store_entry_malformed:
  assumes "fst kv \<notin> set desired" "count_list (fst kv) (CHR '':'') \<noteq> 1"
  shows "\<exists>m. store_entry desired kv acc s = (Inl (ValueError m), s)"
proof -
  have "length (split_str '':'' (fst kv)) \<noteq> 2"
    using assms(2) by (simp add: length_split_str)
  from unpack2_ValueError [OF this] obtain m where
    "unpack2 (split_str '':'' (fst kv)) = Inl (ValueError m)" by auto
  then show ?thesis using assms(1) by (simp add: store_entry_def)
qed

lemma deletion_calls_Cons:
  "deletion_calls desired (kv # items) =
     (if fst kv \<in> set desired then [] else deletion_call kv) @ deletion_calls desired items"
  by (simp add: deletion_calls_def)

lemma deletion_logs_calls:
  "fst kv \<notin> set desired \<Longrightarrow>
   deletion_logs w h desired (kv # items) =
     deletion_logs w h desired [kv] @ deletion_logs w (h @ deletion_call kv) desired items"
  by (simp add: deletion_call_def split: option.splits)

lemma store_loop:
  assumes "\<forall>kv\<in>set items. fst kv \<notin> set desired \<longrightarrow> count_list (fst kv) (CHR '':'') = 1"
  shows "fold_prog (store_entry desired) items acc s =
     (Inr (fold (\<lambda>kv. AList.update (fst kv) (snd kv))
             (filter (\<lambda>kv. fst kv \<in> set desired) items) acc),
      s\<lparr>calls := calls s @ deletion_calls desired items,
        logs := logs s @ deletion_logs (ws s) (calls s) desired items\<rparr>)"
  using assms
proof (induction items arbitrary: acc s)
  case Nil
  then show ?case by (simp add: fold_prog_Nil deletion_calls_def)
next
  case (Cons kv items)
  show ?case
  proof (cases "fst kv \<in> set desired")
    case True
    then show ?thesis
      using Cons by (simp add: fold_prog_Cons store_entry_desired deletion_calls_Cons)
  next
    case False
    with Cons.prems have one: "count_list (fst kv) (CHR '':'') = 1" by simp
    let ?s = "s\<lparr>calls := calls s @ deletion_call kv,
                 logs := logs s @ deletion_logs (ws s) (calls s) desired [kv]\<rparr>"
    have "fold_prog (store_entry desired) (kv # items) acc s
            = fold_prog (store_entry desired) items acc ?s"
      by (simp only: fold_prog_Cons store_entry_orphan [OF False one] prod.case sum.case)
    also have "\<dots> = (Inr (fold (\<lambda>kv. AList.update (fst kv) (snd kv))
             (filter (\<lambda>kv. fst kv \<in> set desired) items) acc),
          ?s\<lparr>calls := calls ?s @ deletion_calls desired items,
             logs := logs ?s @ deletion_logs (ws ?s) (calls ?s) desired items\<rparr>)"
      using Cons.prems by (intro Cons.IH) simp
    finally show ?thesis
      using False deletion_logs_calls [OF False, of "ws s" "calls s" items]
      by (simp add: deletion_calls_Cons del: deletion_logs.simps)
  qed
qed

lemma fold_update_distinct:
  "distinct (map fst xs) \<Longrightarrow> set (map fst xs) \<inter> set (map fst acc) = {} \<Longrightarrow>
   fold (\<lambda>kv. AList.update (fst kv) (snd kv)) xs acc = acc @ xs"
proof (induction xs arbitrary: acc)
  case Nil
  then show ?case by simp
next
  case (Cons x xs)
  have u: "AList.update (fst x) (snd x) acc = acc @ [x]"
    using Cons.prems(2) by (induction acc) auto
  have "fold (\<lambda>kv. AList.update (fst kv) (snd kv)) xs (acc @ [x]) = (acc @ [x]) @ xs"
    using Cons.prems by (intro Cons.IH) auto
  with u show ?case by simp
qed

lemma sweep_entry_malformed:
  assumes "count_list (fst kv) (CHR '':'') \<noteq> 1"
  shows "\<exists>m. sweep_entry kv to_remove s = (Inl (ValueError m), s)"
proof -
  have "length (split_str '':'' (fst kv)) \<noteq> 2"
    using assms by (simp add: length_split_str)
  from unpack2_ValueError [OF this] obtain m where
    "unpack2 (split_str '':'' (fst kv)) = Inl (ValueError m)" by auto
  then show ?thesis by (simp add: sweep_entry_def)
qed

lemma sweep_entry_one_colon:
  assumes "count_list (fst kv) (CHR '':'') = 1"
  shows "sweep_entry kv to_remove s =
     (if key_kind (fst kv) = ''query_id''
      then (Inr (case raises (ws s) (calls s) (QueriesGet (snd kv)) of
                   Some code \<Rightarrow> to_remove @ [fst kv] | None \<Rightarrow> to_remove),
            s\<lparr>calls := calls s @ [QueriesGet (snd kv)]\<rparr>)
      else (Inr to_remove, s))"
proof -
  from one_colon_split [OF assms] obtain r where
    r: "split_str '':'' (fst kv) = [r, key_kind (fst kv)]" by auto
  have "fst kv \<noteq> ''dashboard_id''" using assms by auto
  then show ?thesis using r
    by (simp add: sweep_entry_def invoke_def split: option.splits)
qed

lemma sweep_malformed:
  assumes "kv \<in> set d" "count_list (fst kv) (CHR '':'') \<noteq> 1"
  shows "\<exists>m s'. fold_prog sweep_entry d to_remove s = (Inl (ValueError m), s')"
  using assms(1)
proof (induction d arbitrary: to_remove s)
  case Nil
  then show ?case by simp
next
  case (Cons x d)
  show ?case
  proof (cases "count_list (fst x) (CHR '':'') = 1")
    case True
    with Cons.prems assms(2) have "kv \<in> set d" by auto
    from Cons.IH [OF this] show ?thesis
      by (simp add: fold_prog_Cons sweep_entry_one_colon [OF True])
  next
    case False
    from sweep_entry_malformed [OF this] obtain m where
      "sweep_entry x to_remove s = (Inl (ValueError m), s)" by auto
    then show ?thesis by (simp add: fold_prog_Cons)
  qed
qed

lemma store_malformed:
  assumes "kv \<in> set items" "fst kv \<notin> set desired" "count_list (fst kv) (CHR '':'') \<noteq> 1"
  shows "\<exists>m s'. fold_prog (store_entry desired) items acc s = (Inl (ValueError m), s')"
  using assms(1)
proof (induction items arbitrary: acc s)
  case Nil
  then show ?case by simp
next
  case (Cons x items)
  show ?case
  proof (cases "fst x \<in> set desired")
    case True
    with Cons.prems assms(2) have "kv \<in> set items" by auto
    from Cons.IH [OF this] show ?thesis
      by (simp add: fold_prog_Cons store_entry_desired [OF True])
  next
    case False
    show ?thesis
    proof (cases "count_list (fst x) (CHR '':'') = 1")
      case True
      with Cons.prems assms(3) have "kv \<in> set items" by auto
      from Cons.IH [OF this] show ?thesis
        by (simp add: fold_prog_Cons store_entry_orphan [OF False True])
    next
      case c: False
      from store_entry_malformed [OF False c] obtain m where
        "store_entry desired x acc s = (Inl (ValueError m), s)" by auto
      then show ?thesis by (simp add: fold_prog_Cons)
    qed
  qed
qed

lemma workspace_download_ok:
  "raises (ws s) (calls s) (WorkspaceDownload p) = None \<Longrightarrow>
   workspace_download p s = (Inr (downloaded (ws s) (calls s)), s\<lparr>calls := calls s @ [WorkspaceDownload p]\<rparr>)"
  by (simp add: workspace_download_def bind_def invoke_def lift_def)

subsection \<open>The save step (claim C3)\<close>

text \<open>
  C3, as stated for every state, fails: an entry that is not desired is unpacked by
  \<^verbatim>\<open>_, name = k.split(":")\<close> before anything else is done with it. With a
  key of two colons outside the desired set the save step raises and uploads nothing.
\<close>

theorem store_query_state_counterexample:
  "store_query_state []
     ((init (memory_remote None) ''l'' [] ''r'' ''P'' None None)
        \<lparr>state := [(''s_a_x:y.sql:query_id'', ''q1'')]\<rparr>)
   = (Inl (ValueError ''too many values to unpack (expected 2)''),
      (init (memory_remote None) ''l'' [] ''r'' ''P'' None None)
        \<lparr>state := [(''s_a_x:y.sql:query_id'', ''q1'')]\<rparr>)"
  by (simp add: store_query_state_def bind_def fold_prog_Cons store_entry_def desired_keys_def)

text \<open>
  C3, amended: for every state (a dictionary) whose keys outside the desired set have
  exactly one colon, the save step keeps every desired entry as it is and in its place,
  drops every other entry, attempts the deletion of every dropped entry of kind
  \<^verbatim>\<open>query_id\<close>, \<^verbatim>\<open>viz_id\<close> or \<^verbatim>\<open>widget_id\<close> whatever the
  earlier deletions did, logs the deletions that raised, and ends with the one upload
  of the kept entries; only the upload decides whether the step raises.
\<close>

theorem store_query_state_filters:
  assumes "distinct (map fst (state s))"
    and "\<forall>kv\<in>set (state s). fst kv \<notin> set (desired_keys queries)
           \<longrightarrow> count_list (fst kv) (CHR '':'') = 1"
  shows "store_query_state queries s =
     ((case raises (ws s) (calls s @ deletion_calls (desired_keys queries) (state s))
             (WorkspaceUpload (query_state s)
                (filter (\<lambda>kv. fst kv \<in> set (desired_keys queries)) (state s))) of
         Some code \<Rightarrow> Inl (DatabricksError code)
       | None \<Rightarrow> Inr ()),
      s\<lparr>calls := calls s @ deletion_calls (desired_keys queries) (state s)
                  @ [WorkspaceUpload (query_state s)
                       (filter (\<lambda>kv. fst kv \<in> set (desired_keys queries)) (state s))],
        logs := logs s @ deletion_logs (ws s) (calls s) (desired_keys queries) (state s)\<rparr>)"
proof -
  have "distinct (map fst (filter (\<lambda>kv. fst kv \<in> set (desired_keys queries)) (state s)))"
    using assms(1) by (simp add: distinct_map_filter)
  then have kept: "fold (\<lambda>kv. AList.update (fst kv) (snd kv))
       (filter (\<lambda>kv. fst kv \<in> set (desired_keys queries)) (state s)) []
     = filter (\<lambda>kv. fst kv \<in> set (desired_keys queries)) (state s)"
    using fold_update_distinct [of _ "[]"] by simp
  show ?thesis
    by (simp add: store_query_state_def bind_def store_loop [OF assms(2)] kept invoke_def
        query_state_def split: option.splits)
qed

lemma desired_x: "desired_keys [(''s_a'', [query_x])] =
  [''s_a:dashboard_id'', ''s_a_x.sql:query_id'', ''s_a_x.sql:viz_id'', ''s_a_x.sql:widget_id'']"
  by (simp add: desired_keys_def query_x_def dashboard_key_def query_key_def viz_key_def widget_key_def)

theorem store_query_state_filters_witness:
  "distinct (map fst (state stale_installer))
   \<and> fst (store_query_state [(''s_a'', [query_x])] stale_installer) = Inr ()
   \<and> calls (snd (store_query_state [(''s_a'', [query_x])] stale_installer))
       = [QueriesDelete ''q2'', VisualizationsDelete ''v2'', WidgetsDelete ''w2'',
          WorkspaceUpload ''r/state.json''
            [(''s_a:dashboard_id'', ''d1''), (''s_a_x.sql:query_id'', ''q1'')]]
   \<and> logs (snd (store_query_state [(''s_a'', [query_x])] stale_installer))
       = [InfoDeleteFailed ''query_id'' ''q2'' ''RESOURCE_DOES_NOT_EXIST'']"
  using store_query_state_filters [of stale_installer "[(''s_a'', [query_x])]"]
  by (simp add: desired_x stale_installer_def init_def flaky_remote_def memory_remote_def
      deletion_calls_def deletion_call_def destructors_def key_kind_def query_state_def)

subsection \<open>Keys that do not split in two (claim C10)\<close>

text \<open>
  C10, as stated, fails for the save step: it unpacks only the keys that are not
  desired. The first run over a folder whose query file is \<^verbatim>\<open>x:y.sql\<close>
  accumulates keys with two colons, all of them desired, and saves them without raising.
\<close>

theorem desired_colon_key_counterexample:
  "fst (create_dashboards (installer None colon_folder)) = Inr [(''s_a'', ''d/P S (A)'')]
   \<and> map fst (state (snd (create_dashboards (installer None colon_folder))))
       = [''s_a:dashboard_id'', ''s_a_x:y.sql:query_id'', ''s_a_x:y.sql:viz_id'',
          ''s_a_x:y.sql:widget_id'']"
  by code_simp

text \<open>
  C10, amended: the load unpacks every key of the loaded state, so a loaded state with a
  key that has no colon or more than one makes it raise \<^verbatim>\<open>ValueError\<close>; the
  save step unpacks every key outside the desired set, so a state with such a key
  outside the desired set makes it raise \<^verbatim>\<open>ValueError\<close>. Neither is handled.
\<close>

theorem malformed_key_raises:
  "(raises (ws s) (calls s) (WorkspaceDownload (query_state s)) = None
    \<and> downloaded (ws s) (calls s) = Json d
    \<and> kv \<in> set d \<and> count_list (fst kv) (CHR '':'') \<noteq> 1
    \<longrightarrow> (\<exists>m s'. installed_query_state s = (Inl (ValueError m), s')))
   \<and> (kv \<in> set (state s) \<and> fst kv \<notin> set (desired_keys queries)
        \<and> count_list (fst kv) (CHR '':'') \<noteq> 1
    \<longrightarrow> (\<exists>m s'. store_query_state queries s = (Inl (ValueError m), s')))"
proof (intro conjI impI)
  assume a: "raises (ws s) (calls s) (WorkspaceDownload (query_state s)) = None
    \<and> downloaded (ws s) (calls s) = Json d
    \<and> kv \<in> set d \<and> count_list (fst kv) (CHR '':'') \<noteq> 1"
  let ?s1 = "s\<lparr>calls := calls s @ [WorkspaceDownload (query_state s)], state := d\<rparr>"
  from a sweep_malformed [of kv d "[]" ?s1] obtain m s' where
    sw: "fold_prog sweep_entry d [] ?s1 = (Inl (ValueError m), s')" by auto
  have "load_state s = (Inl (ValueError m), s')"
    using a sw by (simp add: load_state_def workspace_download_ok bind_def)
  then have "installed_query_state s = (Inl (ValueError m), s')"
    by (simp add: installed_query_state_def load_handled_def bind_def)
  then show "\<exists>m s'. installed_query_state s = (Inl (ValueError m), s')" by blast
next
  assume b: "kv \<in> set (state s) \<and> fst kv \<notin> set (desired_keys queries)
        \<and> count_list (fst kv) (CHR '':'') \<noteq> 1"
  from b store_malformed [of kv "state s" "desired_keys queries" "[]" s] obtain m s' where
    "fold_prog (store_entry (desired_keys queries)) (state s) [] s = (Inl (ValueError m), s')"
    by auto
  then have "store_query_state queries s = (Inl (ValueError m), s')"
    by (simp add: store_query_state_def bind_def)
  then show "\<exists>m s'. store_query_state queries s = (Inl (ValueError m), s')" by blast
qed

theorem malformed_key_raises_witness:
  "raises (ws (installer (Some (Json [(''stale'', ''1'')])) [])) []
      (WorkspaceDownload ''r/state.json'') = None
   \<and> downloaded (ws (installer (Some (Json [(''stale'', ''1'')])) [])) [] = Json [(''stale'', ''1'')]
   \<and> count_list ''stale'' (CHR '':'') \<noteq> 1
   \<and> fst (installed_query_state (installer (Some (Json [(''stale'', ''1'')])) []))
       = Inl (ValueError ''not enough values to unpack (expected 2, got 1)'')
   \<and> count_list ''s_a_x:y.sql:query_id'' (CHR '':'') \<noteq> 1
   \<and> fst (store_query_state []
              ((installer None [])\<lparr>state := [(''s_a_x:y.sql:query_id'', ''q1'')]\<rparr>))
       = Inl (ValueError ''too many values to unpack (expected 2)'')"
proof -
  have "raises (ws (installer (Some (Json [(''stale'', ''1'')])) [])) []
      (WorkspaceDownload ''r/state.json'') = None
   \<and> downloaded (ws (installer (Some (Json [(''stale'', ''1'')])) [])) [] = Json [(''stale'', ''1'')]
   \<and> count_list ''stale'' (CHR '':'') \<noteq> 1
   \<and> fst (installed_query_state (installer (Some (Json [(''stale'', ''1'')])) []))
       = Inl (ValueError ''not enough values to unpack (expected 2, got 1)'')
   \<and> count_list ''s_a_x:y.sql:query_id'' (CHR '':'') \<noteq> 1
   \<and> fst (store_query_state []
              ((installer None [])\<lparr>state := [(''s_a_x:y.sql:query_id'', ''q1'')]\<rparr>))
       = Inl (ValueError ''too many values to unpack (expected 2)'')"
    by code_simp
  with malformed_key_raises
    [of "installer (Some (Json [(''stale'', ''1'')])) []" "[(''stale'', ''1'')]"
        "(''stale'', ''1'')" "[]"]
    malformed_key_raises
    [of "(installer None [])\<lparr>state := [(''s_a_x:y.sql:query_id'', ''q1'')]\<rparr>" "[]"
        "(''s_a_x:y.sql:query_id'', ''q1'')" "[]"]
  show ?thesis by simp
qed

subsection \<open>Triples\<close>

declare fold_prog_Cons [simp] fold_prog_Nil [simp]

lemma hoareI:
  "(\<And>s e s'. P s \<Longrightarrow> m s = (Inl e, s') \<Longrightarrow> E e s') \<Longrightarrow>
   (\<And>s x s'. P s \<Longrightarrow> m s = (Inr x, s') \<Longrightarrow> Q x s') \<Longrightarrow> hoare P m Q E"
  by (auto simp: hoare_def split: sum.splits)

lemma hoare_Inr: "hoare P m Q E \<Longrightarrow> P s \<Longrightarrow> m s = (Inr x, s') \<Longrightarrow> Q x s'"
  by (auto simp: hoare_def split: sum.splits)

lemma hoare_Inl: "hoare P m Q E \<Longrightarrow> P s \<Longrightarrow> m s = (Inl e, s') \<Longrightarrow> E e s'"
  by (auto simp: hoare_def split: sum.splits)

lemma hoare_bind:
  assumes "hoare P m Q E" and "\<And>x. hoare (Q x) (f x) R E"
  shows "hoare P (bind m f) R E"
proof (rule hoareI)
  fix s e s' assume P: "P s" and b: "bind m f s = (Inl e, s')"
  show "E e s'"
  proof (cases "m s")
    case (Pair r t)
    show ?thesis
    proof (cases r)
      case (Inl e')
      with Pair b have "e' = e" "t = s'" by (simp_all add: bind_def)
      with hoare_Inl [OF assms(1) P] Pair Inl show ?thesis by simp
    next
      case (Inr x)
      with Pair b have "f x t = (Inl e, s')" by (simp add: bind_def)
      moreover from hoare_Inr [OF assms(1) P] Pair Inr have "Q x t" by simp
      ultimately show ?thesis using hoare_Inl [OF assms(2)] by blast
    qed
  qed
next
  fix s y s' assume P: "P s" and b: "bind m f s = (Inr y, s')"
  show "R y s'"
  proof (cases "m s")
    case (Pair r t)
    show ?thesis
    proof (cases r)
      case (Inl e')
      with Pair b show ?thesis by (simp add: bind_def)
    next
      case (Inr x)
      with Pair b have "f x t = (Inr y, s')" by (simp add: bind_def)
      moreover from hoare_Inr [OF assms(1) P] Pair Inr have "Q x t" by simp
      ultimately show ?thesis using hoare_Inr [OF assms(2)] by blast
    qed
  qed
qed

lemma hoare_lift:
  "(\<And>s. P s \<Longrightarrow> (case r of Inl e \<Rightarrow> E e s | Inr x \<Rightarrow> Q x s)) \<Longrightarrow> hoare P (lift r) Q E"
  by (auto simp: hoare_def lift_def)

lemma hoare_weaken:
  "hoare P' m Q' E' \<Longrightarrow> (\<And>s. P s \<Longrightarrow> P' s) \<Longrightarrow> (\<And>x s. Q' x s \<Longrightarrow> Q x s)
   \<Longrightarrow> (\<And>e s. E' e s \<Longrightarrow> E e s) \<Longrightarrow> hoare P m Q E"
  by (auto simp: hoare_def split: sum.splits)

text \<open>The loop rule: the invariant speaks about the elements done so far.\<close>

lemma hoare_fold_prog_from:
  assumes step: "\<And>ys x zs acc. xs = ys @ x # zs \<Longrightarrow>
             hoare (I ys acc) (f x acc) (\<lambda>a. I (ys @ [x]) a) E"
  shows "xs = done @ todo \<Longrightarrow> hoare (I done acc) (fold_prog f todo acc) (\<lambda>a. I xs a) E"
proof (induction todo arbitrary: "done" acc)
  case Nil
  then show ?case by (auto intro!: hoareI)
next
  case (Cons x todo)
  have st: "hoare (I done acc) (f x acc) (\<lambda>a. I (done @ [x]) a) E"
    using Cons.prems by (intro step) simp
  have rest: "\<And>a. hoare (I (done @ [x]) a) (fold_prog f todo a) (\<lambda>a. I xs a) E"
    using Cons.prems by (intro Cons.IH) simp
  show ?case
  proof (rule hoareI)
    fix s e s' assume P: "I done acc s" and r: "fold_prog f (x # todo) acc s = (Inl e, s')"
    show "E e s'"
    proof (cases "f x acc s")
      case (Pair r1 t)
      show ?thesis
      proof (cases r1)
        case (Inl e1)
        with Pair r hoare_Inl [OF st P] show ?thesis by auto
      next
        case (Inr a)
        with Pair r have "fold_prog f todo a t = (Inl e, s')" by simp
        moreover from Pair Inr hoare_Inr [OF st P] have "I (done @ [x]) a t" by simp
        ultimately show ?thesis using hoare_Inl [OF rest] by blast
      qed
    qed
  next
    fix s y s' assume P: "I done acc s" and r: "fold_prog f (x # todo) acc s = (Inr y, s')"
    show "I xs y s'"
    proof (cases "f x acc s")
      case (Pair r1 t)
      show ?thesis
      proof (cases r1)
        case (Inl e1)
        with Pair r show ?thesis by simp
      next
        case (Inr a)
        with Pair r have "fold_prog f todo a t = (Inr y, s')" by simp
        moreover from Pair Inr hoare_Inr [OF st P] have "I (done @ [x]) a t" by simp
        ultimately show ?thesis using hoare_Inr [OF rest] by blast
      qed
    qed
  qed
qed

lemma hoare_fold_prog:
  assumes "\<And>ys x zs acc. xs = ys @ x # zs \<Longrightarrow>
             hoare (I ys acc) (f x acc) (\<lambda>a. I (ys @ [x]) a) E"
  shows "hoare (I [] acc) (fold_prog f xs acc) (\<lambda>a. I xs a) E"
  using hoare_fold_prog_from [of xs I f E "[]" xs acc] assms by simp

subsection \<open>An unknown visualization type (claim C5)\<close>

lemma get_viz_options_unknown:
  "viz_type q \<noteq> Some ''table'' \<Longrightarrow> viz_type q \<noteq> Some ''counter'' \<Longrightarrow>
   get_viz_options q = Inl (SyntaxError (unknown_viz_type q))"
  by (simp add: get_viz_options_def unknown_viz_type_def)

lemma install_query_calls:
  "calls (snd (install_query q dn ds parent s)) = calls s @ query_calls dn ds parent q s"
  by (simp add: install_query_def query_calls_def create_def invoke_def bind_def lift_def
      state_set_def Let_def split: option.splits)

text \<open>
  C5, as stated, fails: \<^verbatim>\<open>create_dashboards\<close> installs the query before it
  looks at the visualization. On a fresh installation the run over a folder whose first
  file has the type \<^verbatim>\<open>pie\<close> raises only after the query was created remotely
  and given its permissions; the message starts with the query's text, not its name.
\<close>

theorem unknown_viz_type_counterexample:
  "fst (create_dashboards (installer None (pie_folder ''a'')))
     = Inl (SyntaxError (sql_text ''type=pie, name=T'' ''title=t'' @ '': unknown viz type: pie''))
   \<and> calls (snd (create_dashboards (installer None (pie_folder ''a''))))
     = [WorkspaceDownload ''r/state.json'', WorkspaceMkdirs ''r'', WorkspaceGetStatus ''r'',
        DataSourcesList, WarehousesList, DashboardsCreate ''P S (A)'' ''folders/42'',
        PermissionsSet ''dashboards'' ''d/P S (A)'' ''users'' ''CAN_VIEW'',
        QueriesCreate ''folders/42'' ''ds'' ''P S (A) - x.sql''
          (sql_text ''type=pie, name=T'' ''title=t''),
        PermissionsSet ''queries'' ''q/P S (A) - x.sql'' ''users'' ''CAN_RUN'']"
  by code_simp

text \<open>
  C5, amended: for a query whose visualization type is neither \<^verbatim>\<open>table\<close> nor
  \<^verbatim>\<open>counter\<close>, validation raises an \<^verbatim>\<open>AssertionError\<close> with the query's
  name and the message of \<^verbatim>\<open>_get_viz_options\<close> (the query's text and the
  type); reconciliation raises too: \<^verbatim>\<open>_install_viz\<close> raises that
  \<^verbatim>\<open>SyntaxError\<close> before it calls the remote, so the three calls for the query
  raise it unless installing the query itself raised, and the only remote calls made
  for the query are those that update or create the query itself, which are made first.
\<close>

theorem unknown_viz_type_raises:
  assumes "viz_type q \<noteq> Some ''table''" and "viz_type q \<noteq> Some ''counter''"
  shows "validate_query q s =
           (Inl (AssertionError (''Error in '' @ name q @ '': '' @ unknown_viz_type q)), s)
       \<and> install_viz q s = (Inl (SyntaxError (unknown_viz_type q)), s)
       \<and> install_artifacts dn ds parent r q s =
           (case install_query q dn ds parent s of
              (Inl e, s') \<Rightarrow> (Inl e, s')
            | (Inr u, s') \<Rightarrow> (Inl (SyntaxError (unknown_viz_type q)), s'))
       \<and> calls (snd (install_artifacts dn ds parent r q s)) = calls s @ query_calls dn ds parent q s
       \<and> query_calls dn ds parent q s \<noteq> []"
proof -
  note g = get_viz_options_unknown [OF assms]
  have v: "validate_query q s =
           (Inl (AssertionError (''Error in '' @ name q @ '': '' @ unknown_viz_type q)), s)"
    by (simp add: validate_query_def bind_def lift_def g)
  have i: "\<And>t. install_viz q t = (Inl (SyntaxError (unknown_viz_type q)), t)"
    by (simp add: install_viz_def bind_def lift_def g)
  have a: "install_artifacts dn ds parent r q s =
           (case install_query q dn ds parent s of
              (Inl e, s') \<Rightarrow> (Inl e, s')
            | (Inr u, s') \<Rightarrow> (Inl (SyntaxError (unknown_viz_type q)), s'))"
    by (simp add: install_artifacts_def bind_def i split: prod.splits sum.splits)
  have c: "calls (snd (install_artifacts dn ds parent r q s)) = calls s @ query_calls dn ds parent q s"
    using install_query_calls [of q dn ds parent s]
    by (cases "install_query q dn ds parent s") (auto simp: a split: sum.splits)
  have n: "query_calls dn ds parent q s \<noteq> []"
    by (simp add: query_calls_def Let_def split: option.splits)
  from v i a c n show ?thesis by simp
qed

theorem unknown_viz_type_raises_witness:
  "viz_type query_pie \<noteq> Some ''table'' \<and> viz_type query_pie \<noteq> Some ''counter''
   \<and> fst (validate_query query_pie (installer None []))
       = Inl (AssertionError ''Error in x.sql: select 1: unknown viz type: pie'')
   \<and> fst (install_artifacts ''P S (A)'' ''ds'' ''folders/42'' ''s_a'' query_pie (installer None []))
       = Inl (SyntaxError ''select 1: unknown viz type: pie'')
   \<and> calls (snd (install_artifacts ''P S (A)'' ''ds'' ''folders/42'' ''s_a'' query_pie
                   (installer None [])))
       = [QueriesCreate ''folders/42'' ''ds'' ''P S (A) - x.sql'' ''select 1'',
          PermissionsSet ''queries'' ''q/P S (A) - x.sql'' ''users'' ''CAN_RUN'']"
proof -
  have "viz_type query_pie \<noteq> Some ''table'' \<and> viz_type query_pie \<noteq> Some ''counter''
   \<and> fst (validate_query query_pie (installer None []))
       = Inl (AssertionError ''Error in x.sql: select 1: unknown viz type: pie'')
   \<and> fst (install_artifacts ''P S (A)'' ''ds'' ''folders/42'' ''s_a'' query_pie (installer None []))
       = Inl (SyntaxError ''select 1: unknown viz type: pie'')
   \<and> calls (snd (install_artifacts ''P S (A)'' ''ds'' ''folders/42'' ''s_a'' query_pie
                   (installer None [])))
       = [QueriesCreate ''folders/42'' ''ds'' ''P S (A) - x.sql'' ''select 1'',
          PermissionsSet ''queries'' ''q/P S (A) - x.sql'' ''users'' ''CAN_RUN'']"
    by code_simp
  with unknown_viz_type_raises
    [of query_pie "installer None []" "''P S (A)''" "''ds''" "''folders/42''" "''s_a''"]
  show ?thesis by simp
qed

subsection \<open>Validation (claim C8)\<close>

lemma fold_prog_append:
  "fold_prog f (xs @ ys) acc s =
     (case fold_prog f xs acc s of (Inl e, s') \<Rightarrow> (Inl e, s') | (Inr a, s') \<Rightarrow> fold_prog f ys a s')"
  by (induction xs arbitrary: acc s) (auto split: prod.splits sum.splits)

lemma fold_prog_map: "fold_prog f (map h xs) acc s = fold_prog (\<lambda>x. f (h x)) xs acc s"
  by (induction xs arbitrary: acc s) (auto split: prod.splits sum.splits)

lemma fold_prog_nested:
  "fold_prog (\<lambda>st. fold_prog (g st) (dashboard_folders st)) steps acc s
     = fold_prog (\<lambda>p. g (fst p) (snd p)) (folders steps) acc s"
proof (induction steps arbitrary: acc s)
  case Nil
  then show ?case by (simp add: folders_def)
next
  case (Cons st steps)
  have "folders (st # steps) = map (Pair st) (dashboard_folders st) @ folders steps"
    by (simp add: folders_def)
  then show ?case
    by (simp add: fold_prog_append fold_prog_map Cons.IH split: prod.splits sum.splits)
qed

lemma int_attr_default: "int_attr d k p = Inl e \<longleftrightarrow> int_attr d k p' = Inl e"
  by (simp add: int_attr_def split: option.splits)

lemma widget_options_at_Inl: "widget_options_at p q = Inl e \<Longrightarrow> widget_options_at p' q = Inl e"
  by (auto simp: widget_options_at_def int_attr_def split: sum.splits option.splits)

lemma widget_options_at_Inr: "widget_options_at p q = Inr x \<Longrightarrow> \<exists>y. widget_options_at p' q = Inr y"
  by (auto simp: widget_options_at_def int_attr_def split: sum.splits option.splits)

lemma validate_query_result:
  "validate_query q s =
     (case builder_error q of
        Some err \<Rightarrow> Inl (AssertionError (''Error in '' @ name q @ '': '' @ str_exn err))
      | None \<Rightarrow> Inr (),
      s\<lparr>pos := pos s + (case get_viz_options q of Inl e \<Rightarrow> 0 | Inr a \<Rightarrow> 1)\<rparr>)"
proof (cases "get_viz_options q")
  case (Inl e)
  then show ?thesis
    by (simp add: validate_query_def builder_error_def bind_def lift_def)
next
  case (Inr a)
  show ?thesis
  proof (cases "widget_options_at (pos s + 1) q")
    case (Inl e)
    from widget_options_at_Inl [OF this] have "widget_options_at 0 q = Inl e" .
    with Inl Inr show ?thesis
      by (simp add: validate_query_def builder_error_def bind_def lift_def get_widget_options_def)
  next
    case r: (Inr x)
    from widget_options_at_Inr [OF this] obtain y where "widget_options_at 0 q = Inr y" by blast
    with r Inr show ?thesis
      by (simp add: validate_query_def builder_error_def bind_def lift_def get_widget_options_def)
  qed
qed

lemma validate_queries_pass:
  "\<forall>q\<in>set qs. builder_error q = None \<Longrightarrow>
   fold_prog (\<lambda>q _. validate_query q) qs () s = (Inr (), s\<lparr>pos := pos s + int (length qs)\<rparr>)"
proof (induction qs arbitrary: s)
  case Nil
  then show ?case by simp
next
  case (Cons q qs)
  then have "builder_error q = None" by simp
  then obtain a where "get_viz_options q = Inr a"
    by (auto simp: builder_error_def split: sum.splits)
  with \<open>builder_error q = None\<close>
  have "validate_query q s = (Inr (), s\<lparr>pos := pos s + 1\<rparr>)"
    by (simp add: validate_query_result)
  moreover from Cons have "fold_prog (\<lambda>q _. validate_query q) qs () (s\<lparr>pos := pos s + 1\<rparr>)
      = (Inr (), s\<lparr>pos := pos s + 1\<rparr>\<lparr>pos := pos (s\<lparr>pos := pos s + 1\<rparr>) + int (length qs)\<rparr>)"
    by (intro Cons.IH) simp
  ultimately show ?case by (simp add: algebra_simps)
qed

lemma validate_queries_fail:
  assumes "\<forall>q'\<in>set qs1. builder_error q' = None" and "builder_error q = Some err"
  shows "fold_prog (\<lambda>q _. validate_query q) (qs1 @ q # qs2) () s =
     (Inl (AssertionError (''Error in '' @ name q @ '': '' @ str_exn err)),
      s\<lparr>pos := pos s + int (length qs1)
             + (case get_viz_options q of Inl e \<Rightarrow> 0 | Inr a \<Rightarrow> 1)\<rparr>)"
  using assms(2)
  by (simp add: fold_prog_append validate_queries_pass [OF assms(1)] validate_query_result)

lemma desired_of_pos: "desired_of (s\<lparr>pos := k\<rparr>) p = desired_of s p"
  by (simp add: desired_of_def desired_queries_def folder_path_def)

lemma folder_passes_pos: "folder_passes (s\<lparr>pos := k\<rparr>) p = folder_passes s p"
  by (simp add: folder_passes_def desired_of_pos)

lemma queries_of_pos: "queries_of (s\<lparr>pos := k\<rparr>) ps = queries_of s ps"
  by (simp add: queries_of_def desired_of_pos)

lemma validate_folder_unfold:
  "validate_folder (fst p) (snd p) s =
     (case desired_of s p of
        Inl e \<Rightarrow> (Inl e, s)
      | Inr qs \<Rightarrow> fold_prog (\<lambda>q _. validate_query q) qs () s)"
  by (simp add: validate_folder_def desired_of_def bind_def lift_def split: sum.splits)

lemma validate_folders_pass:
  "\<forall>p\<in>set ps. folder_passes s p \<Longrightarrow>
   fold_prog (\<lambda>p _. validate_folder (fst p) (snd p)) ps () s
     = (Inr (), s\<lparr>pos := pos s + int (length (queries_of s ps))\<rparr>)"
proof (induction ps arbitrary: s)
  case Nil
  then show ?case by (simp add: queries_of_def)
next
  case (Cons p ps)
  then obtain qs where qs: "desired_of s p = Inr qs" "\<forall>q\<in>set qs. builder_error q = None"
    by (auto simp: folder_passes_def)
  let ?s1 = "s\<lparr>pos := pos s + int (length qs)\<rparr>"
  have "validate_folder (fst p) (snd p) s = (Inr (), ?s1)"
    using validate_queries_pass [OF qs(2), of s] qs(1) by (simp add: validate_folder_unfold)
  moreover from Cons.prems
  have "fold_prog (\<lambda>p _. validate_folder (fst p) (snd p)) ps () ?s1
      = (Inr (), ?s1\<lparr>pos := pos ?s1 + int (length (queries_of ?s1 ps))\<rparr>)"
    by (intro Cons.IH) (simp add: folder_passes_pos)
  moreover have "queries_of s (p # ps) = qs @ queries_of s ps"
    using qs(1) by (simp add: queries_of_def)
  ultimately show ?case by (simp add: queries_of_pos algebra_simps)
qed

lemma validate_stops_at_folder:
  assumes ps: "folders (local_folder s) = ps @ p # rest" and "\<forall>p'\<in>set ps. folder_passes s p'"
  shows "validate s =
     (case validate_folder (fst p) (snd p) (s\<lparr>pos := pos s + int (length (queries_of s ps))\<rparr>) of
        (Inl e, t) \<Rightarrow> (Inl e, t)
      | (Inr u, t) \<Rightarrow> fold_prog (\<lambda>p _. validate_folder (fst p) (snd p)) rest u t)"
  by (simp add: validate_def fold_prog_nested ps fold_prog_append
      validate_folders_pass [OF assms(2)])

text \<open>What \<^verbatim>\<open>validate\<close> returns, in the three cases there are.\<close>

lemma validate_cases:
  "(\<forall>p\<in>set (folders (local_folder s)). folder_passes s p)
     \<and> validate s = (Inr (), s\<lparr>pos := pos s + int (length (all_desired s))\<rparr>)
   \<or> (\<exists>ps p rest. folders (local_folder s) = ps @ p # rest
        \<and> (\<forall>p'\<in>set ps. folder_passes s p')
        \<and> ((\<exists>e. desired_of s p = Inl e
              \<and> validate s = (Inl e, s\<lparr>pos := pos s + int (length (queries_of s ps))\<rparr>))
           \<or> (\<exists>qs1 q qs2 err. desired_of s p = Inr (qs1 @ q # qs2)
                \<and> (\<forall>q'\<in>set qs1. builder_error q' = None)
                \<and> builder_error q = Some err
                \<and> validate s =
                    (Inl (AssertionError (''Error in '' @ name q @ '': '' @ str_exn err)),
                     s\<lparr>pos := pos s + int (length (queries_of s ps)) + int (length qs1)
                            + (case get_viz_options q of Inl e \<Rightarrow> 0 | Inr a \<Rightarrow> 1)\<rparr>))))"
proof (cases "\<forall>p\<in>set (folders (local_folder s)). folder_passes s p")
  case True
  from validate_folders_pass [OF True] True show ?thesis
    by (simp add: validate_def fold_prog_nested all_desired_def)
next
  case False
  then have "\<exists>p\<in>set (folders (local_folder s)). \<not> folder_passes s p" by simp
  from split_list_first_prop [OF this] obtain ps p rest where
    split: "folders (local_folder s) = ps @ p # rest" and np: "\<not> folder_passes s p"
    and before: "\<forall>p'\<in>set ps. folder_passes s p'"
    by auto
  let ?k = "pos s + int (length (queries_of s ps))"
  note stop = validate_stops_at_folder [OF split before]
  show ?thesis
  proof (cases "desired_of s p")
    case (Inl e)
    with stop have "validate s = (Inl e, s\<lparr>pos := ?k\<rparr>)"
      by (simp add: validate_folder_unfold desired_of_pos)
    with split before Inl show ?thesis by blast
  next
    case (Inr qs)
    with np have "\<exists>q\<in>set qs. builder_error q \<noteq> None" by (simp add: folder_passes_def)
    from split_list_first_prop [OF this] obtain qs1 q qs2 where
      qs: "qs = qs1 @ q # qs2" and nq: "builder_error q \<noteq> None"
      and qbefore: "\<forall>q'\<in>set qs1. builder_error q' = None"
      by auto
    from nq obtain err where err: "builder_error q = Some err" by auto
    from validate_queries_fail [OF qbefore err, of qs2 "s\<lparr>pos := ?k\<rparr>"] stop Inr qs
    have "validate s =
        (Inl (AssertionError (''Error in '' @ name q @ '': '' @ str_exn err)),
         s\<lparr>pos := ?k + int (length qs1)
                + (case get_viz_options q of Inl e \<Rightarrow> 0 | Inr a \<Rightarrow> 1)\<rparr>)"
      by (simp add: validate_folder_unfold desired_of_pos)
    with split before Inr qs qbefore err show ?thesis by blast
  qed
qed

text \<open>
  C8, as stated, fails: the failure is not aggregated and does not name the group.
  With two files of an unknown type in a folder, \<^verbatim>\<open>validate\<close> raises for the
  first one only, and the message is the same whether the folder is \<^verbatim>\<open>s/a\<close>
  or \<^verbatim>\<open>s/b\<close>: it holds the file's name and the builder's message.
\<close>

theorem validate_counterexample:
  "fst (validate (installer None (pie_folder ''a'')))
     = Inl (AssertionError (''Error in x.sql: '' @ sql_text ''type=pie, name=T'' ''title=t''
              @ '': unknown viz type: pie''))
   \<and> fst (validate (installer None (pie_folder ''b'')))
     = fst (validate (installer None (pie_folder ''a'')))
   \<and> map (\<lambda>p. dashboard_ref_of (fst p) (snd p)) (folders (pie_folder ''a'')) = [''s_a'']
   \<and> map (\<lambda>p. dashboard_ref_of (fst p) (snd p)) (folders (pie_folder ''b'')) = [''s_b'']"
  by code_simp

text \<open>
  C8, amended: \<^verbatim>\<open>validate\<close> makes no remote call: it leaves the object as it
  was but for the position counter. It returns only if the definitions of every folder
  can be read and both builders return for every query of every folder; the counter has
  then moved once for every query. If it raises, it has stopped at the first folder, in
  the order of the loops, that does not pass: every folder before it passes, and either
  reading the definitions of that folder raised, and that exception is passed on as it
  is, or the exception is that of the first query of the folder for which a builder
  raises, every query before it passing: an \<^verbatim>\<open>AssertionError\<close> made of the
  query's name and the builder's message, which names no folder. The counter has moved
  once for every query before that one, and once more if it was the widget builder that
  raised.
\<close>

theorem validate_dry_run:
  "(\<exists>n. snd (validate s) = s\<lparr>pos := pos s + int n\<rparr>)
   \<and> (fst (validate s) = Inr () \<longrightarrow>
        (\<forall>p\<in>set (folders (local_folder s)).
           \<exists>qs. desired_of s p = Inr qs \<and> (\<forall>q\<in>set qs. builder_error q = None))
        \<and> snd (validate s) = s\<lparr>pos := pos s + int (length (all_desired s))\<rparr>)
   \<and> (\<forall>e. fst (validate s) = Inl e \<longrightarrow>
        (\<exists>ps p rest. folders (local_folder s) = ps @ p # rest
           \<and> (\<forall>p'\<in>set ps. \<exists>qs. desired_of s p' = Inr qs
                  \<and> (\<forall>q\<in>set qs. builder_error q = None))
           \<and> (desired_of s p = Inl e
                 \<and> snd (validate s) = s\<lparr>pos := pos s + int (length (queries_of s ps))\<rparr>
               \<or> (\<exists>qs1 q qs2 err. desired_of s p = Inr (qs1 @ q # qs2)
                    \<and> (\<forall>q'\<in>set qs1. builder_error q' = None)
                    \<and> builder_error q = Some err
                    \<and> e = AssertionError (''Error in '' @ name q @ '': '' @ str_exn err)
                    \<and> snd (validate s) =
                        s\<lparr>pos := pos s + int (length (queries_of s ps)) + int (length qs1)
                               + (case get_viz_options q of Inl e \<Rightarrow> 0 | Inr a \<Rightarrow> 1)\<rparr>))))"
proof -
  let ?F = "folders (local_folder s)"
  from validate_cases [of s] consider
    (ok) "\<forall>p\<in>set ?F. folder_passes s p"
      "validate s = (Inr (), s\<lparr>pos := pos s + int (length (all_desired s))\<rparr>)"
  | (read) ps p rest e where "?F = ps @ p # rest" "\<forall>p'\<in>set ps. folder_passes s p'"
      "desired_of s p = Inl e"
      "validate s = (Inl e, s\<lparr>pos := pos s + int (length (queries_of s ps))\<rparr>)"
  | (build) ps p rest qs1 q qs2 err where "?F = ps @ p # rest"
      "\<forall>p'\<in>set ps. folder_passes s p'" "desired_of s p = Inr (qs1 @ q # qs2)"
      "\<forall>q'\<in>set qs1. builder_error q' = None" "builder_error q = Some err"
      "validate s =
         (Inl (AssertionError (''Error in '' @ name q @ '': '' @ str_exn err)),
          s\<lparr>pos := pos s + int (length (queries_of s ps)) + int (length qs1)
                 + (case get_viz_options q of Inl e \<Rightarrow> 0 | Inr a \<Rightarrow> 1)\<rparr>)"
    by (elim disjE conjE exE) blast+
  then show ?thesis
  proof cases
    case ok
    have "\<exists>n. snd (validate s) = s\<lparr>pos := pos s + int n\<rparr>"
      by (rule exI [of _ "length (all_desired s)"]) (simp add: ok(2))
    with ok show ?thesis by (simp add: folder_passes_def)
  next
    case read
    have "\<exists>n. snd (validate s) = s\<lparr>pos := pos s + int n\<rparr>"
      by (rule exI [of _ "length (queries_of s ps)"]) (simp add: read(4))
    moreover have "\<exists>ps p rest. ?F = ps @ p # rest
           \<and> (\<forall>p'\<in>set ps. \<exists>qs. desired_of s p' = Inr qs
                  \<and> (\<forall>q\<in>set qs. builder_error q = None))
           \<and> (desired_of s p = Inl e
                 \<and> snd (validate s) = s\<lparr>pos := pos s + int (length (queries_of s ps))\<rparr>
               \<or> (\<exists>qs1 q qs2 err. desired_of s p = Inr (qs1 @ q # qs2)
                    \<and> (\<forall>q'\<in>set qs1. builder_error q' = None)
                    \<and> builder_error q = Some err
                    \<and> e = AssertionError (''Error in '' @ name q @ '': '' @ str_exn err)
                    \<and> snd (validate s) =
                        s\<lparr>pos := pos s + int (length (queries_of s ps)) + int (length qs1)
                               + (case get_viz_options q of Inl e \<Rightarrow> 0 | Inr a \<Rightarrow> 1)\<rparr>))"
      using read
      by - (rule exI [of _ ps], rule exI [of _ p], rule exI [of _ rest],
            simp add: folder_passes_def)
    ultimately show ?thesis using read(4) by simp
  next
    case build
    let ?e = "AssertionError (''Error in '' @ name q @ '': '' @ str_exn err)"
    have "\<exists>n. snd (validate s) = s\<lparr>pos := pos s + int n\<rparr>"
      by (rule exI [of _ "length (queries_of s ps) + length qs1
            + (case get_viz_options q of Inl e \<Rightarrow> 0 | Inr a \<Rightarrow> 1)"])
         (simp add: build(6) split: sum.splits)
    moreover have "\<exists>ps p rest. ?F = ps @ p # rest
           \<and> (\<forall>p'\<in>set ps. \<exists>qs. desired_of s p' = Inr qs
                  \<and> (\<forall>q\<in>set qs. builder_error q = None))
           \<and> (desired_of s p = Inl ?e
                 \<and> snd (validate s) = s\<lparr>pos := pos s + int (length (queries_of s ps))\<rparr>
               \<or> (\<exists>qs1 q qs2 err. desired_of s p = Inr (qs1 @ q # qs2)
                    \<and> (\<forall>q'\<in>set qs1. builder_error q' = None)
                    \<and> builder_error q = Some err
                    \<and> ?e = AssertionError (''Error in '' @ name q @ '': '' @ str_exn err)
                    \<and> snd (validate s) =
                        s\<lparr>pos := pos s + int (length (queries_of s ps)) + int (length qs1)
                               + (case get_viz_options q of Inl e \<Rightarrow> 0 | Inr a \<Rightarrow> 1)\<rparr>))"
    proof (rule exI [of _ ps], rule exI [of _ p], rule exI [of _ rest], intro conjI disjI2)
      show "\<exists>qs1' q' qs2' err'. desired_of s p = Inr (qs1' @ q' # qs2')
                    \<and> (\<forall>q''\<in>set qs1'. builder_error q'' = None)
                    \<and> builder_error q' = Some err'
                    \<and> ?e = AssertionError (''Error in '' @ name q' @ '': '' @ str_exn err')
                    \<and> snd (validate s) =
                        s\<lparr>pos := pos s + int (length (queries_of s ps)) + int (length qs1')
                               + (case get_viz_options q' of Inl e \<Rightarrow> 0 | Inr a \<Rightarrow> 1)\<rparr>"
        using build
        by - (rule exI [of _ qs1], rule exI [of _ q], rule exI [of _ qs2], rule exI [of _ err],
              simp)
    qed (use build in \<open>simp_all add: folder_passes_def\<close>)
    ultimately show ?thesis using build(6) by simp
  qed
qed

theorem validate_dry_run_witness:
  "fst (validate (installer None one_folder)) = Inr ()
   \<and> pos (snd (validate (installer None one_folder))) = 1
   \<and> calls (snd (validate (installer None one_folder))) = []
   \<and> map (\<lambda>p. map_sum id (map builder_error) (desired_of (installer None one_folder) p))
        (folders one_folder) = [Inr [None]]
   \<and> fst (validate (installer None (pie_folder ''a'')))
       = Inl (AssertionError (''Error in x.sql: '' @ sql_text ''type=pie, name=T'' ''title=t''
                @ '': unknown viz type: pie''))
   \<and> calls (snd (validate (installer None (pie_folder ''a'')))) = []
   \<and> fst (validate (installer None two_errors))
       = Inl (AssertionError (''Error in y.sql: invalid literal for int() with base 10: ''
                @ quoted ''abc''))
   \<and> pos (snd (validate (installer None two_errors))) = 2
   \<and> map (\<lambda>p. map_sum id (map builder_error) (desired_of (installer None two_errors) p))
        (folders two_errors)
       = [Inr [None],
          Inr [Some (ValueError (''invalid literal for int() with base 10: '' @ quoted ''abc'')),
               Some (SyntaxError (sql_text ''type=pie, name=T'' ''title=t''
                 @ '': unknown viz type: pie''))]]"
proof -
  have "fst (validate (installer None one_folder)) = Inr ()
   \<and> pos (snd (validate (installer None one_folder))) = 1
   \<and> calls (snd (validate (installer None one_folder))) = []
   \<and> map (\<lambda>p. map_sum id (map builder_error) (desired_of (installer None one_folder) p))
        (folders one_folder) = [Inr [None]]
   \<and> fst (validate (installer None (pie_folder ''a'')))
       = Inl (AssertionError (''Error in x.sql: '' @ sql_text ''type=pie, name=T'' ''title=t''
                @ '': unknown viz type: pie''))
   \<and> calls (snd (validate (installer None (pie_folder ''a'')))) = []
   \<and> fst (validate (installer None two_errors))
       = Inl (AssertionError (''Error in y.sql: invalid literal for int() with base 10: ''
                @ quoted ''abc''))
   \<and> pos (snd (validate (installer None two_errors))) = 2
   \<and> map (\<lambda>p. map_sum id (map builder_error) (desired_of (installer None two_errors) p))
        (folders two_errors)
       = [Inr [None],
          Inr [Some (ValueError (''invalid literal for int() with base 10: '' @ quoted ''abc'')),
               Some (SyntaxError (sql_text ''type=pie, name=T'' ''title=t''
                 @ '': unknown viz type: pie''))]]"
    by code_simp
  with validate_dry_run [of "installer None one_folder"]
    validate_dry_run [of "installer None (pie_folder ''a'')"]
    validate_dry_run [of "installer None two_errors"]
  show ?thesis by simp
qed

subsection \<open>The state is loaded once for every folder (claims C1 and C4)\<close>

text \<open>
  C1: the state should be downloaded once in a run. \<^verbatim>\<open>create_dashboards\<close>
  calls \<^verbatim>\<open>_installed_query_state\<close> inside its loop over the dashboard folders, so
  it downloads the state once for every folder, and a state that exists replaces what the
  run holds in memory. When the folder \<^verbatim>\<open>s/a\<close> is added to the installed
  folder \<^verbatim>\<open>s/b\<close>, the run downloads the state twice; it creates the dashboard
  of \<^verbatim>\<open>s/a\<close> and returns its identifier, but the second download forgets
  it, so the one upload at the end holds the entries of \<^verbatim>\<open>s/b\<close> alone, and
  the next run over the same folders creates the dashboard of \<^verbatim>\<open>s/a\<close> again.
\<close>

theorem state_downloaded_per_folder:
  "filter is_download (drop (length (calls installed_b)) (calls added_a))
     = [WorkspaceDownload ''r/state.json'', WorkspaceDownload ''r/state.json'']
   \<and> fst (create_dashboards (next_run two_folders installed_b))
       = Inr [(''s_a'', ''d/P S (A)''), (''s_b'', ''d/P S (B)'')]
   \<and> DashboardsCreate ''P S (A)'' ''folders/42''
       \<in> set (drop (length (calls installed_b)) (calls added_a))
   \<and> last_upload (calls added_a) = Some entries_b
   \<and> state added_a = entries_b
   \<and> DashboardsCreate ''P S (A)'' ''folders/42''
       \<in> set (drop (length (calls added_a)) (calls rerun_ab))"
  by code_simp

text \<open>
  C4: a state file that does not decode should give the same outcome as a missing one.
  The handler of the decoding error empties the state in memory at every load, the
  handler of the missing file leaves it alone; as the state is loaded for every folder,
  a run over two folders uploads the entries of both folders when the file is missing,
  and those of the last folder alone when the file does not decode.
\<close>

theorem corrupt_state_differs_from_missing:
  "fst (create_dashboards (installer (Some NotJson) two_folders))
     = Inr [(''s_a'', ''d/P S (A)''), (''s_b'', ''d/P S (B)'')]
   \<and> fst (create_dashboards (installer None two_folders))
     = Inr [(''s_a'', ''d/P S (A)''), (''s_b'', ''d/P S (B)'')]
   \<and> last_upload (calls (snd (create_dashboards (installer (Some NotJson) two_folders))))
     = Some entries_b
   \<and> last_upload (calls (snd (create_dashboards (installer None two_folders))))
     = Some (entries_a @ entries_b)
   \<and> logs (snd (create_dashboards (installer (Some NotJson) two_folders)))
     = [WarningStateCorrupt ''r/state.json'', WarningStateCorrupt ''r/state.json'']"
  by code_simp

subsection \<open>Steps that only add calls\<close>

lemma quiet_refl: "quiet P s s"
  by (simp add: quiet_def same_config_def)

lemma quiet_trans: "quiet P s t \<Longrightarrow> quiet P t u \<Longrightarrow> quiet P s u"
  by (auto simp: quiet_def same_config_def)

lemma quiet_mono: "quiet P s t \<Longrightarrow> (\<And>c. P c \<Longrightarrow> Q c) \<Longrightarrow> quiet Q s t"
  by (auto simp: quiet_def list_all_iff)

lemma keepsD: "keeps P m \<Longrightarrow> m s = (r, t) \<Longrightarrow> quiet P s t"
  by (auto simp: keeps_def)

lemma keeps_mono:
  assumes "keeps P m" and "\<And>c. P c \<Longrightarrow> Q c"
  shows "keeps Q m"
  unfolding keeps_def
proof (intro allI impI)
  fix s r t assume "m s = (r, t)"
  from keepsD [OF assms(1) this] show "quiet Q s t" by (rule quiet_mono) (rule assms(2))
qed

lemma keeps_lift: "keeps P (lift r)"
  by (simp add: keeps_def lift_def quiet_refl)

lemma keeps_bind:
  assumes "keeps P m" and "\<And>x. keeps P (f x)"
  shows "keeps P (bind m f)"
  unfolding keeps_def
proof (intro allI impI)
  fix s r t assume b: "bind m f s = (r, t)"
  show "quiet P s t"
  proof (cases "m s")
    case (Pair r1 s1)
    from keepsD [OF assms(1) Pair] have q1: "quiet P s s1" .
    show ?thesis
    proof (cases r1)
      case (Inl e)
      with Pair b q1 show ?thesis by (simp add: bind_def)
    next
      case (Inr x)
      with Pair b have "f x s1 = (r, t)" by (simp add: bind_def)
      from keepsD [OF assms(2) this] q1 show ?thesis by (blast intro: quiet_trans)
    qed
  qed
qed

lemma keeps_invoke: "P c \<Longrightarrow> keeps P (invoke c)"
  by (auto simp: keeps_def invoke_def quiet_def same_config_def split: option.splits)

lemma keeps_fold_prog:
  assumes "\<And>x acc. keeps P (f x acc)"
  shows "keeps P (fold_prog f xs acc)"
proof (induction xs arbitrary: acc)
  case Nil
  show ?case by (simp add: keeps_def quiet_refl)
next
  case (Cons x xs)
  have "keeps P (bind (f x acc) (fold_prog f xs))"
    by (rule keeps_bind) (rule assms, rule Cons)
  then show ?case by (simp only: fold_prog.simps)
qed

lemma keeps_update:
  "keeps P (\<lambda>s. (r s, s\<lparr>state := f s, logs := g s\<rparr>))"
  by (simp add: keeps_def quiet_def same_config_def)

lemma keeps_state_set: "keeps P (state_set k v)"
  by (simp add: keeps_def state_set_def quiet_def same_config_def)

lemma keeps_state_get: "keeps P (state_get k)"
  by (simp add: keeps_def state_get_def quiet_refl split: option.splits)

lemma quiet_call_added: "P c \<Longrightarrow> quiet P s (s\<lparr>calls := calls s @ [c]\<rparr>)"
  by (simp add: quiet_def same_config_def)

lemma keeps_create: "P c \<Longrightarrow> keeps P (create c)"
  by (auto simp: keeps_def create_def bind_def invoke_def lift_def quiet_call_added
      split: option.splits)

lemma quiet_calls [simp]:
  "quiet_call (WorkspaceDownload p)" "quiet_call (WorkspaceMkdirs p)"
  "quiet_call (WorkspaceGetStatus p)" "quiet_call DataSourcesList" "quiet_call WarehousesList"
  "quiet_call (DashboardsGet d)" "quiet_call (DashboardsCreate n p)"
  "quiet_call (PermissionsSet a b c e)" "quiet_call (QueriesGet i)"
  "quiet_call (QueriesCreate a b c e)" "quiet_call (QueriesUpdate a b c e)"
  "quiet_call (QueriesDelete i)" "quiet_call (VisualizationsCreate i x)"
  "quiet_call (VisualizationsUpdate i x)" "quiet_call (VisualizationsDelete i)"
  "quiet_call (WidgetsDelete i)"
  by (simp_all add: quiet_call_def is_upload_def is_widget_create_def)

lemma keeps_sweep_entry: "keeps quiet_call (sweep_entry kv to_remove)"
  unfolding keeps_def
proof (intro allI impI)
  fix s r t assume "sweep_entry kv to_remove s = (r, t)"
  then have "t = s \<or> t = s\<lparr>calls := calls s @ [QueriesGet (snd kv)]\<rparr>"
    by (auto simp: sweep_entry_def invoke_def split: sum.splits if_splits option.splits)
  then show "quiet quiet_call s t"
    by (auto simp: quiet_def same_config_def)
qed

lemma keeps_workspace_download: "keeps quiet_call (workspace_download p)"
  by (auto simp: keeps_def workspace_download_def bind_def invoke_def lift_def quiet_call_added
      split: option.splits)

lemma keeps_workspace_get_status: "keeps quiet_call (workspace_get_status p)"
  by (auto simp: keeps_def workspace_get_status_def bind_def invoke_def lift_def
      quiet_call_added split: option.splits)

lemma keeps_data_sources_list: "keeps quiet_call data_sources_list"
  by (auto simp: keeps_def data_sources_list_def bind_def invoke_def lift_def quiet_call_added
      split: option.splits)

lemma keeps_warehouses_list: "keeps quiet_call warehouses_list"
  by (auto simp: keeps_def warehouses_list_def bind_def invoke_def lift_def quiet_call_added
      split: option.splits)

lemma keeps_dashboards_get: "keeps quiet_call (dashboards_get d)"
  by (auto simp: keeps_def dashboards_get_def bind_def invoke_def lift_def quiet_call_added
      split: option.splits)

lemma keeps_load_state: "keeps quiet_call load_state"
  unfolding keeps_def
proof (intro allI impI)
  fix s r t assume l: "load_state s = (r, t)"
  show "quiet quiet_call s t"
  proof (cases "workspace_download (query_state s) s")
    case (Pair r1 s1)
    from keepsD [OF keeps_workspace_download Pair] have q1: "quiet quiet_call s s1" .
    show ?thesis
    proof (cases r1)
      case (Inl e)
      with Pair l q1 show ?thesis by (simp add: load_state_def bind_def)
    next
      case (Inr b)
      show ?thesis
      proof (cases b)
        case NotJson
        with Inr Pair l q1 show ?thesis by (simp add: load_state_def bind_def lift_def)
      next
        case (Json d)
        have q2: "quiet quiet_call s (s1\<lparr>state := d\<rparr>)"
          using q1 by (simp add: quiet_def same_config_def)
        show ?thesis
        proof (cases "fold_prog sweep_entry d [] (s1\<lparr>state := d\<rparr>)")
          case p2: (Pair r2 s2)
          from keepsD [OF keeps_fold_prog p2, of quiet_call] keeps_sweep_entry
          have "quiet quiet_call (s1\<lparr>state := d\<rparr>) s2" by blast
          with q2 have q3: "quiet quiet_call s s2" by (blast intro: quiet_trans)
          then have q4: "\<And>f. quiet quiet_call s (s2\<lparr>state := f\<rparr>)"
            by (simp add: quiet_def same_config_def)
          from Json Inr Pair l p2 q3 q4 show ?thesis
            by (cases r2) (auto simp: load_state_def bind_def)
        qed
      qed
    qed
  qed
qed

lemma keeps_load_handled: "keeps quiet_call load_handled"
  unfolding keeps_def
proof (intro allI impI)
  fix s r t assume i: "load_handled s = (r, t)"
  obtain r1 s1 where l: "load_state s = (r1, s1)" by (cases "load_state s")
  from keepsD [OF keeps_load_state l] have q1: "quiet quiet_call s s1" .
  have q2: "quiet quiet_call s1 t"
  proof (cases r1)
    case (Inr u)
    with l i show ?thesis by (simp add: load_handled_def quiet_refl)
  next
    case (Inl e)
    show ?thesis
    proof (cases e)
      case (DatabricksError code)
      show ?thesis
      proof (cases "code \<noteq> ''RESOURCE_DOES_NOT_EXIST''")
        case True
        with DatabricksError Inl l i show ?thesis by (simp add: load_handled_def quiet_refl)
      next
        case False
        with DatabricksError Inl l i
        have "invoke (WorkspaceMkdirs (remote_folder s1)) s1 = (r, t)"
          by (simp add: load_handled_def)
        from keepsD [OF keeps_invoke this, of quiet_call] show ?thesis by simp
      qed
    next
      case JSONDecodeError
      with Inl l i show ?thesis by (auto simp: load_handled_def quiet_def same_config_def)
    qed (use Inl l i in \<open>simp_all add: load_handled_def quiet_refl\<close>)
  qed
  from q1 q2 show "quiet quiet_call s t" by (rule quiet_trans)
qed

lemma keeps_parent_folder: "keeps quiet_call parent_folder"
  by (auto simp: keeps_def parent_folder_def workspace_get_status_def bind_def invoke_def
      lift_def quiet_call_added split: option.splits)

lemma keeps_installed_query_state: "keeps quiet_call installed_query_state"
  unfolding installed_query_state_def
  by (intro keeps_bind keeps_load_handled keeps_parent_folder)

lemma keeps_dashboard_data_source: "keeps quiet_call dashboard_data_source"
  unfolding dashboard_data_source_def
proof (intro keeps_bind keeps_data_sources_list keeps_warehouses_list)
  fix sources :: "(string \<times> string) list" and whs :: "string list"
  show "keeps quiet_call (\<lambda>s.
             case (case warehouse_id s of
                     None \<Rightarrow> (case whs of [] \<Rightarrow> None | w # _ \<Rightarrow> Some w)
                   | Some w \<Rightarrow>
                       if w \<noteq> [] then Some w
                       else (case whs of [] \<Rightarrow> None | w' # _ \<Rightarrow> Some w')) of
               None \<Rightarrow>
                 (Inl (ValueError
                    ''need either configured warehouse_id or an existing SQL warehouse''), s)
             | Some w \<Rightarrow>
                 (case map_of (rev sources) w of
                    None \<Rightarrow> (Inl (KeyError w), s)
                  | Some d \<Rightarrow> (Inr d, s)))"
    by (auto simp: keeps_def quiet_refl split: option.splits list.splits if_splits)
qed

lemma keeps_install_dashboard: "keeps quiet_call (install_dashboard dn p r)"
proof -
  have a: "\<And>d. keeps quiet_call (bind (dashboards_get d)
            (\<lambda>widgets. fold_prog (\<lambda>w _. invoke (WidgetsDelete w)) widgets ()))"
    by (intro keeps_bind keeps_dashboards_get keeps_fold_prog keeps_invoke) simp
  have b: "keeps quiet_call (bind (create (DashboardsCreate dn p))
            (\<lambda>dash. bind (invoke (PermissionsSet ''dashboards'' dash ''users'' ''CAN_VIEW''))
               (\<lambda>_. state_set (dashboard_key r) dash)))"
    by (intro keeps_bind keeps_create keeps_invoke keeps_state_set) simp_all
  show ?thesis
    unfolding keeps_def install_dashboard_def
    using keepsD [OF a] keepsD [OF b] by (auto split: option.splits)
qed

lemma keeps_install_query: "keeps quiet_call (install_query q dn ds p)"
proof -
  have a: "\<And>i. keeps quiet_call (invoke (QueriesUpdate i ds (dn @ '' - '' @ name q) (query q)))"
    by (rule keeps_invoke) simp
  have b: "keeps quiet_call (bind (create (QueriesCreate p ds (dn @ '' - '' @ name q) (query q)))
            (\<lambda>i. bind (invoke (PermissionsSet ''queries'' i ''users'' ''CAN_RUN''))
               (\<lambda>_. state_set (query_key q) i)))"
    by (intro keeps_bind keeps_create keeps_invoke keeps_state_set) simp_all
  show ?thesis
    unfolding keeps_def install_query_def
    using keepsD [OF b] keepsD [OF a]
    by (auto split: option.splits)
qed

lemma keeps_install_viz: "keeps quiet_call (install_viz q)"
  unfolding install_viz_def
proof (intro keeps_bind keeps_lift)
  fix args
  have a: "\<And>i. keeps quiet_call (invoke (VisualizationsUpdate i args))"
    by (rule keeps_invoke) simp
  have b: "keeps quiet_call (bind (state_get (query_key q))
              (\<lambda>qid. bind (create (VisualizationsCreate qid args)) (state_set (viz_key q))))"
    by (intro keeps_bind keeps_create keeps_state_get keeps_state_set) simp
  show "keeps quiet_call (\<lambda>s. case map_of (state s) (viz_key q) of
          Some i \<Rightarrow> invoke (VisualizationsUpdate i args) s
        | None \<Rightarrow>
            bind (state_get (query_key q))
              (\<lambda>qid. bind (create (VisualizationsCreate qid args)) (state_set (viz_key q))) s)"
    unfolding keeps_def
    using keepsD [OF b] keepsD [OF a]
    by (auto split: option.splits)
qed

lemma keeps_store_entry:
  assumes del: "\<And>i. P (QueriesDelete i)" "\<And>i. P (VisualizationsDelete i)"
    "\<And>i. P (WidgetsDelete i)"
  shows "keeps P (store_entry desired kv acc)"
  unfolding keeps_def
proof (intro allI impI)
  fix s r t assume st: "store_entry desired kv acc s = (r, t)"
  show "quiet P s t"
  proof (cases "fst kv \<in> set desired")
    case True
    with st show ?thesis by (simp add: store_entry_def quiet_refl)
  next
    case False
    show ?thesis
    proof (cases "unpack2 (split_str '':'' (fst kv))")
      case (Inl e)
      with False st show ?thesis by (simp add: store_entry_def quiet_refl)
    next
      case (Inr p)
      show ?thesis
      proof (cases "destructors (snd p)")
        case None
        with Inr False st show ?thesis
          by (cases p) (simp add: store_entry_def quiet_refl)
      next
        case (Some d)
        with del have "P (d (snd kv))"
          by (auto simp: destructors_def split: if_splits)
        with Some Inr False st show ?thesis
          by (cases p)
             (auto simp: store_entry_def invoke_def quiet_def same_config_def split: option.splits)
      qed
    qed
  qed
qed

lemma keeps_store_query_state:
  assumes del: "\<And>i. P (QueriesDelete i)" "\<And>i. P (VisualizationsDelete i)"
    "\<And>i. P (WidgetsDelete i)" and up: "\<And>p d. P (WorkspaceUpload p d)"
  shows "keeps P (store_query_state queries)"
proof -
  have "keeps P
     (bind (fold_prog (store_entry (desired_keys queries)) st [])
       (\<lambda>new_state s'. invoke (WorkspaceUpload (query_state s') new_state) s'))" for st
  proof (intro keeps_bind keeps_fold_prog keeps_store_entry del)
    fix new_state
    show "keeps P (\<lambda>s'. invoke (WorkspaceUpload (query_state s') new_state) s')"
      using up
      by (auto simp: keeps_def invoke_def quiet_def same_config_def split: option.splits)
  qed
  from keepsD [OF this] show ?thesis
    unfolding keeps_def store_query_state_def by blast
qed

subsection \<open>The widget counter (claim C7)\<close>

lemma created_widgets_append:
  "created_widgets (a @ b) = created_widgets a @ created_widgets b"
  by (simp add: created_widgets_def)

lemma created_widgets_none:
  "list_all (\<lambda>c. \<not> is_widget_create c) h \<Longrightarrow> created_widgets h = []"
  by (induction h) (auto simp: created_widgets_def is_widget_create_def split: call.splits)

lemma options_from_snoc:
  "options_from p (qs @ [q]) = options_from p qs @ [widget_options_at (p + int (length qs) + 1) q]"
  by (induction qs arbitrary: p) (simp_all add: algebra_simps)

lemma length_options_from: "length (options_from p qs) = length qs"
  by (induction qs arbitrary: p) simp_all

lemma nth_options_from:
  "i < length qs \<Longrightarrow> options_from p qs ! i = widget_options_at (p + int i + 1) (qs ! i)"
proof (induction qs arbitrary: p i)
  case Nil
  then show ?case by simp
next
  case (Cons q qs)
  show ?case
  proof (cases i)
    case 0
    then show ?thesis by simp
  next
    case (Suc j)
    with Cons.prems have "j < length qs" by simp
    from Cons.IH [OF this, of "p + 1"] Suc show ?thesis by (simp add: algebra_simps)
  qed
qed

lemma default_row:
  "widget_options_at p q = Inr opts \<Longrightarrow> map_of (widget q) ''row'' = None
   \<Longrightarrow> row (position opts) = p"
  by (auto simp: widget_options_at_def int_attr_def split: sum.splits)

lemma track_quiet:
  assumes "track s0 qs s" and "quiet P s t" and "\<And>c. P c \<Longrightarrow> \<not> is_widget_create c"
  shows "track s0 qs t"
proof -
  from assms(1) obtain new where n: "calls s = calls s0 @ new"
      "map Inr (created_widgets new) = options_from (pos s0) qs" and c: "same_config s0 s"
    by (auto simp: track_def)
  from assms(2) obtain more where m: "calls t = calls s @ more" "list_all P more"
      and c': "same_config s t"
    by (auto simp: quiet_def)
  from m(2) assms(3) have "list_all (\<lambda>c. \<not> is_widget_create c) more"
    by (auto simp: list_all_iff)
  then have "created_widgets more = []" by (rule created_widgets_none)
  with n m have "calls t = calls s0 @ (new @ more)"
      "map Inr (created_widgets (new @ more)) = options_from (pos s0) qs"
    by (simp_all add: created_widgets_append)
  moreover from c c' have "same_config s0 t" by (simp add: same_config_def)
  ultimately show ?thesis unfolding track_def by blast
qed

lemma counted_quiet:
  assumes "counted s0 qs s" and "quiet P s t" and "\<And>c. P c \<Longrightarrow> \<not> is_widget_create c"
  shows "counted s0 qs t"
proof -
  from assms(1) have "track s0 qs s" "pos s = pos s0 + int (length qs)"
    by (simp_all add: counted_def)
  moreover from assms(2) have "pos t = pos s" by (simp add: quiet_def)
  ultimately show ?thesis
    using track_quiet [OF _ assms(2) assms(3)] by (simp add: counted_def)
qed

lemma hoare_keeps:
  assumes "keeps P m" and "\<And>c. P c \<Longrightarrow> \<not> is_widget_create c"
  shows "hoare (counted s0 qs) m (\<lambda>_. counted s0 qs) (\<lambda>_. track s0 qs)"
proof (rule hoareI)
  fix s e t assume "counted s0 qs s" "m s = (Inl e, t)"
  from counted_quiet [OF this(1) keepsD [OF assms(1) this(2)] assms(2)]
  show "track s0 qs t" by (simp add: counted_def)
next
  fix s x t assume "counted s0 qs s" "m s = (Inr x, t)"
  from counted_quiet [OF this(1) keepsD [OF assms(1) this(2)] assms(2)]
  show "counted s0 qs t" .
qed

lemma quiet_call_not_widget: "quiet_call c \<Longrightarrow> \<not> is_widget_create c"
  by (simp add: quiet_call_def)

lemma install_widget_cases:
  assumes "install_widget q ref s = (r, t)"
  shows "(calls t = calls s \<and> same_config s t \<and> (\<exists>e. r = Inl e))
       \<or> (\<exists>d opts v. widget_options_at (pos s + 1) q = Inr opts
             \<and> calls t = calls s @ [WidgetsCreate d opts v] \<and> pos t = pos s + 1
             \<and> same_config s t)"
  using assms
  by (auto simp: install_widget_def bind_def state_get_def get_widget_options_def create_def
      invoke_def lift_def state_set_def same_config_def split: option.splits sum.splits)

lemma track_widget:
  assumes "counted s0 qs s" and "widget_options_at (pos s + 1) q = Inr opts"
    and "calls t = calls s @ [WidgetsCreate d opts v]" and "same_config s t"
  shows "track s0 (qs @ [q]) t"
proof -
  from assms(1) obtain new where n: "calls s = calls s0 @ new"
      "map Inr (created_widgets new) = options_from (pos s0) qs" and c: "same_config s0 s"
      and p: "pos s = pos s0 + int (length qs)"
    by (auto simp: track_def counted_def)
  have "created_widgets [WidgetsCreate d opts v] = [opts]" by (simp add: created_widgets_def)
  with n assms(2,3) p have "calls t = calls s0 @ (new @ [WidgetsCreate d opts v])"
      "map Inr (created_widgets (new @ [WidgetsCreate d opts v]))
         = options_from (pos s0) (qs @ [q])"
    by (simp_all add: created_widgets_append options_from_snoc)
  moreover from c assms(4) have "same_config s0 t" by (simp add: same_config_def)
  ultimately show ?thesis unfolding track_def by blast
qed

lemma hoare_install_widget:
  "hoare (counted s0 qs) (install_widget q ref) (\<lambda>_. counted s0 (qs @ [q]))
     (\<lambda>_ t. track s0 qs t \<or> track s0 (qs @ [q]) t)"
proof (rule hoareI)
  fix s e t assume c: "counted s0 qs s" and i: "install_widget q ref s = (Inl e, t)"
  from install_widget_cases [OF i] show "track s0 qs t \<or> track s0 (qs @ [q]) t"
  proof
    assume "calls t = calls s \<and> same_config s t \<and> (\<exists>e'. Inl e = (Inl e' :: exn + unit))"
    with c show ?thesis by (auto simp: counted_def track_def same_config_def)
  next
    assume "\<exists>d opts v. widget_options_at (pos s + 1) q = Inr opts
             \<and> calls t = calls s @ [WidgetsCreate d opts v] \<and> pos t = pos s + 1
             \<and> same_config s t"
    with track_widget [OF c] show ?thesis by blast
  qed
next
  fix s x t assume c: "counted s0 qs s" and i: "install_widget q ref s = (Inr x, t)"
  from install_widget_cases [OF i] obtain d opts v where
    w: "widget_options_at (pos s + 1) q = Inr opts"
      "calls t = calls s @ [WidgetsCreate d opts v]" "same_config s t" and p: "pos t = pos s + 1"
    by auto
  from track_widget [OF c w] p c show "counted s0 (qs @ [q]) t" by (simp add: counted_def)
qed

lemma hoare_install_artifacts:
  "hoare (counted s0 qs) (install_artifacts dn ds parent ref q) (\<lambda>_. counted s0 (qs @ [q]))
     (\<lambda>_ t. track s0 qs t \<or> track s0 (qs @ [q]) t)"
proof -
  have a: "hoare (counted s0 qs) (install_query q dn ds parent) (\<lambda>_. counted s0 qs)
      (\<lambda>_ t. track s0 qs t \<or> track s0 (qs @ [q]) t)"
    by (rule hoare_weaken [OF hoare_keeps [OF keeps_install_query quiet_call_not_widget]]) auto
  have b: "hoare (counted s0 qs) (install_viz q) (\<lambda>_. counted s0 qs)
      (\<lambda>_ t. track s0 qs t \<or> track s0 (qs @ [q]) t)"
    by (rule hoare_weaken [OF hoare_keeps [OF keeps_install_viz quiet_call_not_widget]]) auto
  show ?thesis
    unfolding install_artifacts_def
    by (rule hoare_bind [OF a], rule hoare_bind [OF b], rule hoare_install_widget)
qed

lemma track_aborted: "track s0 qs t \<Longrightarrow> all = qs @ rest \<Longrightarrow> aborted s0 all t"
  unfolding aborted_def by (rule exI [of _ "length qs"]) simp

lemma hoare_install_queries:
  assumes all: "all = pre @ qs @ rest"
  shows "hoare (counted s0 pre)
      (fold_prog (\<lambda>q _. install_artifacts dn ds parent ref q) qs ())
      (\<lambda>_. counted s0 (pre @ qs)) (\<lambda>_. aborted s0 all)"
proof -
  have "hoare (counted s0 (pre @ []))
      (fold_prog (\<lambda>q _. install_artifacts dn ds parent ref q) qs ())
      (\<lambda>_. counted s0 (pre @ qs)) (\<lambda>_. aborted s0 all)"
  proof (rule hoare_fold_prog [where I = "\<lambda>ys _. counted s0 (pre @ ys)"])
    fix ys x zs and acc :: unit
    assume xs: "qs = ys @ x # zs"
    show "hoare (counted s0 (pre @ ys)) (install_artifacts dn ds parent ref x)
        (\<lambda>a. counted s0 (pre @ ys @ [x])) (\<lambda>_. aborted s0 all)"
    proof (rule hoare_weaken [OF hoare_install_artifacts [of s0 "pre @ ys" dn ds parent ref x]])
      fix e t assume "track s0 (pre @ ys) t \<or> track s0 ((pre @ ys) @ [x]) t"
      then show "aborted s0 all t"
      proof
        assume "track s0 (pre @ ys) t"
        then show ?thesis by (rule track_aborted) (simp add: all xs)
      next
        assume "track s0 ((pre @ ys) @ [x]) t"
        then show ?thesis by (rule track_aborted) (simp add: all xs)
      qed
    qed simp_all
  qed
  then show ?thesis by simp
qed

lemma same_config_desired: "same_config s0 s \<Longrightarrow> desired_of s p = desired_of s0 p"
  by (simp add: same_config_def desired_of_def desired_queries_def folder_path_def)

lemma queries_of_snoc:
  "queries_of s (ps @ [p])
     = queries_of s ps @ (case desired_of s p of Inl e \<Rightarrow> [] | Inr qs \<Rightarrow> qs)"
  by (simp add: queries_of_def)

lemma queries_of_append: "queries_of s (ps @ ps') = queries_of s ps @ queries_of s ps'"
  by (simp add: queries_of_def)

lemma hoare_install_folder:
  assumes all: "all = queries_of s0 (ps @ p # ps')"
  shows "hoare (counted s0 (queries_of s0 ps)) (install_folder (fst p) (snd p) acc)
      (\<lambda>_. counted s0 (queries_of s0 (ps @ [p]))) (\<lambda>_. aborted s0 all)"
proof -
  let ?pre = "queries_of s0 ps"
  have split: "all = ?pre @ (case desired_of s0 p of Inl e \<Rightarrow> [] | Inr qs \<Rightarrow> qs)
      @ queries_of s0 ps'"
    using all queries_of_append [of s0 ps "p # ps'"] queries_of_append [of s0 "[p]" ps']
    by (simp add: queries_of_def)
  have body: "hoare (counted s0 ?pre)
      (bind installed_query_state
         (\<lambda>parent. bind dashboard_data_source
            (\<lambda>ds. bind (install_dashboard dn parent ref)
               (\<lambda>_. bind (fold_prog (\<lambda>q _. install_artifacts dn ds parent ref q) qs ())
                  (\<lambda>_. bind (state_get (dashboard_key ref))
                     (\<lambda>d. lift (Inr (AList.update ref d (fst acc),
                                      AList.update ref qs (snd acc)))))))))
      (\<lambda>_. counted s0 (?pre @ qs)) (\<lambda>_. aborted s0 all)"
    if qs: "desired_of s0 p = Inr qs" for dn ref qs
  proof -
    from split qs have a: "all = ?pre @ qs @ queries_of s0 ps'" by simp
    have before: "hoare (counted s0 ?pre) m (\<lambda>_. counted s0 ?pre) (\<lambda>_. aborted s0 all)"
      if "keeps quiet_call m" for m :: "'x prog"
    proof (rule hoare_weaken [OF hoare_keeps [OF that quiet_call_not_widget]])
      fix e t assume "track s0 ?pre t"
      then show "aborted s0 all t" by (rule track_aborted) (rule a)
    qed simp_all
    have after: "hoare (counted s0 (?pre @ qs)) m (\<lambda>_. counted s0 (?pre @ qs))
        (\<lambda>_. aborted s0 all)"
      if "keeps quiet_call m" for m :: "'x prog"
    proof (rule hoare_weaken [OF hoare_keeps [OF that quiet_call_not_widget]])
      fix e t assume "track s0 (?pre @ qs) t"
      then show "aborted s0 all t" by (rule track_aborted) (simp add: a)
    qed simp_all
    show ?thesis
      by (intro hoare_bind [OF before [OF keeps_installed_query_state]]
          hoare_bind [OF before [OF keeps_dashboard_data_source]]
          hoare_bind [OF before [OF keeps_install_dashboard]]
          hoare_bind [OF hoare_install_queries [OF a]]
          hoare_bind [OF after [OF keeps_state_get]]
          after [OF keeps_lift])
  qed
  show ?thesis
  proof (rule hoareI)
    fix s e t
    assume c: "counted s0 ?pre s" and i: "install_folder (fst p) (snd p) acc s = (Inl e, t)"
    from c have sc: "same_config s0 s" by (simp add: counted_def track_def)
    note d = same_config_desired [OF sc, of p]
    show "aborted s0 all t"
    proof (cases "desired_of s0 p")
      case (Inl e')
      with i d have "t = s"
        by (simp add: install_folder_def desired_of_def bind_def lift_def)
      moreover from c have "track s0 ?pre s" by (simp add: counted_def)
      ultimately show ?thesis using track_aborted split by blast
    next
      case (Inr qs)
      with i d hoare_Inl [OF body [OF Inr] c] show ?thesis
        by (simp add: install_folder_def desired_of_def bind_lift_Inr Let_def)
    qed
  next
    fix s x t
    assume c: "counted s0 ?pre s" and i: "install_folder (fst p) (snd p) acc s = (Inr x, t)"
    from c have sc: "same_config s0 s" by (simp add: counted_def track_def)
    note d = same_config_desired [OF sc, of p]
    show "counted s0 (queries_of s0 (ps @ [p])) t"
    proof (cases "desired_of s0 p")
      case (Inl e')
      with i d show ?thesis
        by (simp add: install_folder_def desired_of_def bind_def lift_def)
    next
      case (Inr qs)
      with i d hoare_Inr [OF body [OF Inr] c] show ?thesis
        by (simp add: install_folder_def desired_of_def bind_lift_Inr Let_def queries_of_snoc)
    qed
  qed
qed

lemma hoare_install_folders:
  "hoare (counted s0 [])
     (fold_prog (\<lambda>p. install_folder (fst p) (snd p)) ps acc)
     (\<lambda>_. counted s0 (queries_of s0 ps)) (\<lambda>_. aborted s0 (queries_of s0 ps))"
proof -
  have "hoare (counted s0 (queries_of s0 []))
     (fold_prog (\<lambda>p. install_folder (fst p) (snd p)) ps acc)
     (\<lambda>_. counted s0 (queries_of s0 ps)) (\<lambda>_. aborted s0 (queries_of s0 ps))"
    by (rule hoare_fold_prog [where I = "\<lambda>ys _. counted s0 (queries_of s0 ys)"])
       (rule hoare_install_folder, simp)
  then show ?thesis by (simp add: queries_of_def)
qed

lemma counted_refl: "counted s [] s"
  by (simp add: counted_def track_def same_config_def created_widgets_def)

lemma hoare_create_dashboards:
  "hoare (\<lambda>t. t = s) create_dashboards
     (\<lambda>_. counted s (all_desired s)) (\<lambda>_. aborted s (all_desired s))"
proof -
  let ?all = "all_desired s"
  have store: "hoare (counted s ?all) (bind (store_query_state qd) (\<lambda>_. lift (Inr ds)))
      (\<lambda>_. counted s ?all) (\<lambda>_. aborted s ?all)" for qd and ds :: "(string \<times> ident) list"
  proof (rule hoare_weaken [OF hoare_keeps [of "\<lambda>c. \<not> is_widget_create c"]])
    show "keeps (\<lambda>c. \<not> is_widget_create c) (bind (store_query_state qd) (\<lambda>_. lift (Inr ds)))"
      by (intro keeps_bind keeps_store_query_state keeps_lift)
         (simp_all add: is_widget_create_def)
    fix e t assume "track s ?all t"
    then show "aborted s ?all t" by (rule track_aborted) simp
  qed simp_all
  have run: "hoare (counted s [])
      (bind (fold_prog (\<lambda>p. install_folder (fst p) (snd p)) (folders (local_folder s)) ([], []))
         (\<lambda>acc. bind (store_query_state (snd acc)) (\<lambda>_. lift (Inr (fst acc)))))
      (\<lambda>_. counted s ?all) (\<lambda>_. aborted s ?all)"
    unfolding all_desired_def
    by (rule hoare_bind [OF hoare_install_folders]) (rule store [unfolded all_desired_def])
  have eq: "create_dashboards s =
      bind (fold_prog (\<lambda>p. install_folder (fst p) (snd p)) (folders (local_folder s)) ([], []))
         (\<lambda>acc. bind (store_query_state (snd acc)) (\<lambda>_. lift (Inr (fst acc)))) s"
    by (simp add: create_dashboards_def bind_def fold_prog_nested)
  show ?thesis
  proof (rule hoareI)
    fix t e t' assume "t = s" "create_dashboards t = (Inl e, t')"
    with eq hoare_Inl [OF run counted_refl] show "aborted s ?all t'" by simp
  next
    fix t x t' assume "t = s" "create_dashboards t = (Inr x, t')"
    with eq hoare_Inr [OF run counted_refl] show "counted s ?all t'" by simp
  qed
qed

lemma track_rows:
  assumes "track s qs t"
  shows "length (widget_rows (new_calls s t)) = length qs
       \<and> (\<forall>i<length qs. map_of (widget (qs ! i)) ''row'' = None
             \<longrightarrow> widget_rows (new_calls s t) ! i = pos s + int i + 1)"
proof -
  from assms obtain new where n: "calls t = calls s @ new"
      and o: "map Inr (created_widgets new) = options_from (pos s) qs"
    by (auto simp: track_def)
  from n have nc: "new_calls s t = new" by (simp add: new_calls_def)
  from o have "length (map Inr (created_widgets new) :: (exn + widget_options) list)
      = length (options_from (pos s) qs)" by simp
  then have len: "length (created_widgets new) = length qs"
    by (simp add: length_options_from)
  have "widget_rows new ! i = pos s + int i + 1"
    if i: "i < length qs" and r: "map_of (widget (qs ! i)) ''row'' = None" for i
  proof -
    from o have "map Inr (created_widgets new) ! i = options_from (pos s) qs ! i" by simp
    with i len nth_options_from [OF i, of "pos s"]
    have "widget_options_at (pos s + int i + 1) (qs ! i) = Inr (created_widgets new ! i)"
      by simp
    from default_row [OF this r] i len show ?thesis by (simp add: widget_rows_def)
  qed
  with nc len show ?thesis by (simp add: widget_rows_def)
qed

text \<open>
  C7: whatever the outcome of a run of \<^verbatim>\<open>create_dashboards\<close>, the widgets it
  creates are those of the first \<open>n\<close> queries of the run, all folders taken together
  in the order of the loops, and the widget of a query without a \<^verbatim>\<open>row\<close>
  attribute gets the row \<open>pos s + i + 1\<close>, where \<open>i\<close> counts the queries before it
  in the whole run: the successive values of the one counter, which no folder resets.
  A run that returns has created the widgets of all the queries, and the counter has
  moved once for each. On a new object the counter starts at 0, so three such queries
  get the rows 1, 2, 3.
\<close>

theorem default_rows_follow_counter:
  assumes "create_dashboards s = (r, t)"
  shows "\<exists>n\<le>length (all_desired s).
           length (widget_rows (new_calls s t)) = n
           \<and> (\<forall>i<n. map_of (widget (all_desired s ! i)) ''row'' = None
                  \<longrightarrow> widget_rows (new_calls s t) ! i = pos s + int i + 1)
           \<and> (\<forall>x. r = Inr x \<longrightarrow> n = length (all_desired s) \<and> pos t = pos s + int n)"
proof (cases r)
  case (Inl e)
  with assms hoare_Inl [OF hoare_create_dashboards, of s s e t]
  obtain n where n: "n \<le> length (all_desired s)" and t: "track s (take n (all_desired s)) t"
    by (auto simp: aborted_def)
  from track_rows [OF t] n Inl show ?thesis
    by (intro exI [of _ n]) (simp add: min_absorb2)
next
  case (Inr x)
  with assms hoare_Inr [OF hoare_create_dashboards, of s s x t]
  have c: "counted s (all_desired s) t" by simp
  then have t: "track s (all_desired s) t" by (simp add: counted_def)
  from track_rows [OF t] c show ?thesis
    by (intro exI [of _ "length (all_desired s)"]) (simp add: counted_def)
qed

theorem default_rows_follow_counter_witness:
  "widget_rows (new_calls (installer None three_widgets)
      (snd (create_dashboards (installer None three_widgets)))) = [1, 2, 3]"
proof -
  let ?s = "installer None three_widgets"
  obtain r t where rt: "create_dashboards ?s = (r, t)" by (cases "create_dashboards ?s")
  let ?rows = "widget_rows (new_calls ?s t)"
  have "\<not> isl (fst (create_dashboards ?s))" by code_simp
  with rt obtain x where r: "r = Inr x" by (cases r) simp_all
  have d: "length (all_desired ?s) = 3 \<and> pos ?s = 0
      \<and> list_all (\<lambda>q. map_of (widget q) ''row'' = None) (all_desired ?s)"
    by code_simp
  then have norow: "\<forall>i<3. map_of (widget (all_desired ?s ! i)) ''row'' = None"
    by (simp add: list_all_length)
  from default_rows_follow_counter [OF rt] r d norow
  have len: "length ?rows = 3" and nth: "\<forall>i<3. ?rows ! i = int i + 1"
    by auto
  from len obtain a b c where abc: "?rows = [a, b, c]"
    by (auto simp: numeral_3_eq_3 length_Suc_conv)
  from nth have "?rows ! 0 = 1" "?rows ! 1 = 2" "?rows ! 2 = 3" by simp_all
  with abc have "?rows = [1, 2, 3]" by simp
  with rt show ?thesis by simp
qed

subsection \<open>Running again over what is recorded (claim C2)\<close>

lemma reuse_calls [simp]:
  "reuse_call (WorkspaceDownload p)" "reuse_call (WorkspaceMkdirs p)"
  "reuse_call (WorkspaceGetStatus p)" "reuse_call DataSourcesList" "reuse_call WarehousesList"
  "reuse_call (DashboardsGet d)" "reuse_call (PermissionsSet a b c e)"
  "reuse_call (QueriesGet i)" "reuse_call (QueriesUpdate a b c e)"
  "reuse_call (QueriesDelete i)" "reuse_call (VisualizationsUpdate i x)"
  "reuse_call (VisualizationsDelete i)" "reuse_call (WidgetsCreate d w v)"
  "reuse_call (WidgetsDelete i)"
  by (simp_all add: reuse_call_def is_upload_def creates_def)

lemma extends_refl: "extends s s"
  by (simp add: extends_def same_config_def)

lemma extends_call:
  "extends s0 t \<Longrightarrow> reuse_call c \<Longrightarrow> extends s0 (t\<lparr>calls := calls t @ [c]\<rparr>)"
  by (auto simp: extends_def same_config_def)

lemma reusing_call:
  "reusing S s0 t \<Longrightarrow> reuse_call c \<Longrightarrow> reusing S s0 (t\<lparr>calls := calls t @ [c]\<rparr>)"
  by (auto simp: reusing_def extends_def same_config_def)

lemma hoare_invoke_reusing:
  "reuse_call c \<Longrightarrow> hoare (reusing S s0) (invoke c) (\<lambda>_. reusing S s0) (\<lambda>_ _. True)"
  by (rule hoareI) (auto simp: invoke_def reusing_call split: option.splits)

lemma hoare_dashboards_get_reusing:
  "hoare (reusing S s0) (dashboards_get d) (\<lambda>_. reusing S s0) (\<lambda>_ _. True)"
  by (rule hoareI)
     (auto simp: dashboards_get_def bind_def invoke_def lift_def reusing_call
       split: option.splits)

lemma hoare_data_sources_list_reusing:
  "hoare (reusing S s0) data_sources_list (\<lambda>_. reusing S s0) (\<lambda>_ _. True)"
  by (rule hoareI)
     (auto simp: data_sources_list_def bind_def invoke_def lift_def reusing_call
       split: option.splits)

lemma hoare_warehouses_list_reusing:
  "hoare (reusing S s0) warehouses_list (\<lambda>_. reusing S s0) (\<lambda>_ _. True)"
  by (rule hoareI)
     (auto simp: warehouses_list_def bind_def invoke_def lift_def reusing_call
       split: option.splits)

lemma hoare_dashboard_data_source_reusing:
  "hoare (reusing S s0) dashboard_data_source (\<lambda>_. reusing S s0) (\<lambda>_ _. True)"
  unfolding dashboard_data_source_def
proof (intro hoare_bind [OF hoare_data_sources_list_reusing]
    hoare_bind [OF hoare_warehouses_list_reusing])
  fix sources :: "(string \<times> string) list" and whs :: "string list"
  show "hoare (reusing S s0) (\<lambda>s.
             case (case warehouse_id s of
                     None \<Rightarrow> (case whs of [] \<Rightarrow> None | w # _ \<Rightarrow> Some w)
                   | Some w \<Rightarrow>
                       if w \<noteq> [] then Some w
                       else (case whs of [] \<Rightarrow> None | w' # _ \<Rightarrow> Some w')) of
               None \<Rightarrow>
                 (Inl (ValueError
                    ''need either configured warehouse_id or an existing SQL warehouse''), s)
             | Some w \<Rightarrow>
                 (case map_of (rev sources) w of
                    None \<Rightarrow> (Inl (KeyError w), s)
                  | Some d \<Rightarrow> (Inr d, s)))
          (\<lambda>_. reusing S s0) (\<lambda>_ _. True)"
    by (rule hoareI) (auto split: option.splits list.splits if_splits)
qed

lemma hoare_state_get_reusing:
  "hoare (reusing S s0) (state_get k)
     (\<lambda>v t. reusing S s0 t \<and> map_of (state t) k = Some v) (\<lambda>_ _. True)"
  by (rule hoareI) (auto simp: state_get_def split: option.splits)

lemma hoare_loop_reusing:
  assumes "\<And>x acc. x \<in> set xs \<Longrightarrow> hoare (reusing S s0) (f x acc) (\<lambda>_. reusing S s0) (\<lambda>_ _. True)"
  shows "hoare (reusing S s0) (fold_prog f xs acc) (\<lambda>_. reusing S s0) (\<lambda>_ _. True)"
  by (rule hoare_fold_prog [where I = "\<lambda>_ _. reusing S s0"]) (rule assms, simp)

lemma recorded:
  assumes "reusing S s0 s" and "k \<in> recorded_keys s0" and "recorded_keys s0 \<subseteq> fst ` set S"
  shows "\<exists>v. map_of (state s) k = Some v \<and> map_of S k = Some v"
proof -
  from assms(2,3) have "map_of S k \<noteq> None" by (auto simp: map_of_eq_None_iff)
  with assms(1,2) show ?thesis by (auto simp: reusing_def)
qed

lemma hoare_install_dashboard_reusing:
  assumes "dashboard_key ref \<in> recorded_keys s0" and "recorded_keys s0 \<subseteq> fst ` set S"
  shows "hoare (reusing S s0) (install_dashboard dn parent ref) (\<lambda>_. reusing S s0)
      (\<lambda>_ _. True)"
proof (rule hoareI)
  fix s x t assume r: "reusing S s0 s" and i: "install_dashboard dn parent ref s = (Inr x, t)"
  from recorded [OF r assms] obtain d where "map_of (state s) (dashboard_key ref) = Some d"
    by blast
  with i have b: "bind (dashboards_get d)
      (\<lambda>widgets. fold_prog (\<lambda>w _. invoke (WidgetsDelete w)) widgets ()) s = (Inr x, t)"
    by (simp add: install_dashboard_def)
  have del: "hoare (reusing S s0) (invoke (WidgetsDelete w)) (\<lambda>_. reusing S s0) (\<lambda>_ _. True)"
    for w by (rule hoare_invoke_reusing) simp
  have h: "hoare (reusing S s0) (bind (dashboards_get d)
      (\<lambda>widgets. fold_prog (\<lambda>w _. invoke (WidgetsDelete w)) widgets ()))
      (\<lambda>_. reusing S s0) (\<lambda>_ _. True)"
    by (rule hoare_bind [OF hoare_dashboards_get_reusing], rule hoare_loop_reusing, rule del)
  from hoare_Inr [OF h r b] show "reusing S s0 t" .
qed simp

lemma hoare_install_query_reusing:
  assumes "query_key q \<in> recorded_keys s0" and "recorded_keys s0 \<subseteq> fst ` set S"
  shows "hoare (reusing S s0) (install_query q dn ds parent) (\<lambda>_. reusing S s0) (\<lambda>_ _. True)"
proof (rule hoareI)
  fix s x t assume r: "reusing S s0 s" and i: "install_query q dn ds parent s = (Inr x, t)"
  from recorded [OF r assms] obtain v where "map_of (state s) (query_key q) = Some v"
    by blast
  with i have "invoke (QueriesUpdate v ds (dn @ '' - '' @ name q) (query q)) s = (Inr x, t)"
    by (simp add: install_query_def)
  moreover have "hoare (reusing S s0)
      (invoke (QueriesUpdate v ds (dn @ '' - '' @ name q) (query q)))
      (\<lambda>_. reusing S s0) (\<lambda>_ _. True)"
    by (rule hoare_invoke_reusing) simp
  ultimately show "reusing S s0 t" using r by (rule hoare_Inr [rotated 2])
qed simp

lemma hoare_install_viz_reusing:
  assumes "viz_key q \<in> recorded_keys s0" and "recorded_keys s0 \<subseteq> fst ` set S"
  shows "hoare (reusing S s0) (install_viz q) (\<lambda>_. reusing S s0) (\<lambda>_ _. True)"
proof (rule hoareI)
  fix s x t assume r: "reusing S s0 s" and i: "install_viz q s = (Inr x, t)"
  from recorded [OF r assms] obtain v where v: "map_of (state s) (viz_key q) = Some v"
    by blast
  from i obtain args where "get_viz_options q = Inr args"
    by (cases "get_viz_options q") (simp_all add: install_viz_def bind_def lift_def)
  with i v have "invoke (VisualizationsUpdate v args) s = (Inr x, t)"
    by (simp add: install_viz_def bind_def lift_def)
  moreover have "hoare (reusing S s0) (invoke (VisualizationsUpdate v args))
      (\<lambda>_. reusing S s0) (\<lambda>_ _. True)"
    by (rule hoare_invoke_reusing) simp
  ultimately show "reusing S s0 t" using r by (rule hoare_Inr [rotated 2])
qed simp

lemma install_widget_state:
  assumes "install_widget q ref s = (Inr x, t)"
  shows "\<exists>d opts v w. calls t = calls s @ [WidgetsCreate d opts v] \<and> same_config s t
           \<and> state t = AList.update (widget_key q) w (state s)"
  using assms
  by (auto simp: install_widget_def bind_def state_get_def get_widget_options_def create_def
      invoke_def lift_def state_set_def same_config_def split: option.splits sum.splits)

lemma widget_key_not_query: "widget_key q \<noteq> query_key q'"
proof
  assume "widget_key q = query_key q'"
  then have "rev (widget_key q) = rev (query_key q')" by simp
  then show False by (simp add: widget_key_def query_key_def)
qed

lemma widget_key_not_viz: "widget_key q \<noteq> viz_key q'"
proof
  assume "widget_key q = viz_key q'"
  then have "rev (widget_key q) = rev (viz_key q')" by simp
  then show False by (simp add: widget_key_def viz_key_def)
qed

lemma widget_key_not_dashboard: "widget_key q \<noteq> dashboard_key r"
proof
  assume "widget_key q = dashboard_key r"
  then have "rev (widget_key q) = rev (dashboard_key r)" by simp
  then show False by (simp add: widget_key_def dashboard_key_def)
qed

lemma widget_key_not_recorded: "widget_key q \<notin> recorded_keys s"
  by (auto simp: recorded_keys_def widget_key_not_query widget_key_not_viz
      widget_key_not_dashboard)

lemma hoare_install_widget_reusing:
  "hoare (reusing S s0) (install_widget q ref) (\<lambda>_. reusing S s0) (\<lambda>_ _. True)"
proof (rule hoareI)
  fix s x t assume r: "reusing S s0 s" and i: "install_widget q ref s = (Inr x, t)"
  from install_widget_state [OF i] obtain d opts v w where
    c: "calls t = calls s @ [WidgetsCreate d opts v]" and sc: "same_config s t"
    and st: "state t = AList.update (widget_key q) w (state s)"
    by blast
  from r c sc have "extends s0 t" by (auto simp: reusing_def extends_def same_config_def)
  moreover from r st have "distinct (map fst (state t))"
    by (simp add: reusing_def distinct_update)
  moreover have "map_of (state t) k = map_of S k" if k: "k \<in> recorded_keys s0" for k
  proof -
    from k widget_key_not_recorded [of q s0] have "k \<noteq> widget_key q" by auto
    with st have "map_of (state t) k = map_of (state s) k" by (simp add: update_conv')
    with r k show ?thesis by (simp add: reusing_def)
  qed
  ultimately show "reusing S s0 t" by (simp add: reusing_def)
qed simp

lemma hoare_install_artifacts_reusing:
  assumes "query_key q \<in> recorded_keys s0" and "viz_key q \<in> recorded_keys s0"
    and "recorded_keys s0 \<subseteq> fst ` set S"
  shows "hoare (reusing S s0) (install_artifacts dn ds parent ref q) (\<lambda>_. reusing S s0)
      (\<lambda>_ _. True)"
  unfolding install_artifacts_def
  by (intro hoare_bind [OF hoare_install_query_reusing [OF assms(1,3)]]
      hoare_bind [OF hoare_install_viz_reusing [OF assms(2,3)]]
      hoare_install_widget_reusing)

lemma reads_extends:
  assumes "reads s0 S" and "extends s0 t"
  shows "raises (ws t) (calls t) (WorkspaceDownload (query_state t)) = None"
    and "downloaded (ws t) (calls t) = Json S"
    and "kv \<in> set S \<Longrightarrow> swept kv \<Longrightarrow> raises (ws t) (calls t) (QueriesGet (snd kv)) = None"
proof -
  from assms(2) obtain new where n: "calls t = calls s0 @ new" "list_all reuse_call new"
      and c: "ws t = ws s0" "query_state t = query_state s0"
    by (auto simp: extends_def same_config_def query_state_def)
  from n(2) have "list_all (\<lambda>c. \<not> is_upload c) new"
    by (auto simp: list_all_iff reuse_call_def)
  with assms(1) have "raises (ws s0) (calls s0 @ new) (WorkspaceDownload (query_state s0)) = None
        \<and> downloaded (ws s0) (calls s0 @ new) = Json S
        \<and> (\<forall>kv\<in>set S. swept kv \<longrightarrow>
              raises (ws s0) (calls s0 @ new) (QueriesGet (snd kv)) = None)"
    unfolding reads_def by blast
  with n(1) c show "raises (ws t) (calls t) (WorkspaceDownload (query_state t)) = None"
    and "downloaded (ws t) (calls t) = Json S"
    and "kv \<in> set S \<Longrightarrow> swept kv \<Longrightarrow> raises (ws t) (calls t) (QueriesGet (snd kv)) = None"
    by simp_all
qed

lemma unpack2_Inl: "unpack2 xs = Inl e \<Longrightarrow> \<exists>m. e = ValueError m"
  by (induction xs rule: unpack2.induct) auto

lemma hoare_sweep_entry_reads:
  assumes "reads s0 S" and "kv \<in> set S"
  shows "hoare (\<lambda>t. extends s0 t \<and> state t = st) (sweep_entry kv [])
      (\<lambda>a t. (extends s0 t \<and> state t = st) \<and> a = []) (\<lambda>e t. \<exists>m. e = ValueError m)"
proof (rule hoareI)
  fix s e t assume "extends s0 s \<and> state s = st" and sw: "sweep_entry kv [] s = (Inl e, t)"
  then have ex: "extends s0 s" by simp
  show "\<exists>m. e = ValueError m"
  proof (cases "unpack2 (split_str '':'' (fst kv))")
    case (Inl e')
    with sw unpack2_Inl [OF Inl] show ?thesis by (simp add: sweep_entry_def)
  next
    case (Inr p)
    show ?thesis
    proof (cases "swept kv")
      case True
      with sw Inr reads_extends(3) [OF assms(1) ex assms(2)] show ?thesis
        by (cases p) (simp add: sweep_entry_def invoke_def split: if_splits)
    next
      case False
      with sw Inr show ?thesis
        by (cases p) (simp add: sweep_entry_def swept_def split: if_splits)
    qed
  qed
next
  fix s a t assume pre: "extends s0 s \<and> state s = st" and sw: "sweep_entry kv [] s = (Inr a, t)"
  then have ex: "extends s0 s" by simp
  show "(extends s0 t \<and> state t = st) \<and> a = []"
  proof (cases "unpack2 (split_str '':'' (fst kv))")
    case (Inl e')
    with sw show ?thesis by (simp add: sweep_entry_def)
  next
    case (Inr p)
    show ?thesis
    proof (cases "swept kv")
      case True
      with sw pre Inr reads_extends(3) [OF assms(1) ex assms(2)]
        extends_call [OF ex, of "QueriesGet (snd kv)"]
      show ?thesis
        by (cases p) (auto simp: sweep_entry_def invoke_def split: if_splits)
    next
      case False
      with sw pre Inr show ?thesis
        by (cases p) (auto simp: sweep_entry_def swept_def split: if_splits)
    qed
  qed
qed

lemma hoare_sweep_reads:
  assumes "reads s0 S" and "set d \<subseteq> set S"
  shows "hoare (\<lambda>t. extends s0 t \<and> state t = st) (fold_prog sweep_entry d [])
      (\<lambda>a t. (extends s0 t \<and> state t = st) \<and> a = []) (\<lambda>e t. \<exists>m. e = ValueError m)"
proof -
  have "hoare (\<lambda>t. (extends s0 t \<and> state t = st) \<and> [] = ([] :: string list))
      (fold_prog sweep_entry d [])
      (\<lambda>a t. (extends s0 t \<and> state t = st) \<and> a = []) (\<lambda>e t. \<exists>m. e = ValueError m)"
  proof (rule hoare_fold_prog [where I = "\<lambda>_ a t. (extends s0 t \<and> state t = st) \<and> a = []"])
    fix ys x zs and acc :: "string list"
    assume xs: "d = ys @ x # zs"
    with assms(2) have x: "x \<in> set S" by auto
    show "hoare (\<lambda>t. (extends s0 t \<and> state t = st) \<and> acc = []) (sweep_entry x acc)
        (\<lambda>a t. (extends s0 t \<and> state t = st) \<and> a = []) (\<lambda>e t. \<exists>m. e = ValueError m)"
    proof (cases "acc = []")
      case True
      then show ?thesis
        using hoare_sweep_entry_reads [OF assms(1) x, of st] by simp
    next
      case False
      then show ?thesis by (simp add: hoare_def)
    qed
  qed
  then show ?thesis by simp
qed

lemma hoare_load_state_reads:
  assumes "reads s0 S"
  shows "hoare (extends s0) load_state (\<lambda>_ t. extends s0 t \<and> state t = S)
      (\<lambda>e t. \<exists>m. e = ValueError m)"
proof -
  let ?tail = "bind (fold_prog sweep_entry S [])
      (\<lambda>to_remove s2. (Inr (), s2\<lparr>state := fold AList.delete to_remove (state s2)\<rparr>))"
  have tail: "hoare (\<lambda>t. extends s0 t \<and> state t = S) ?tail
      (\<lambda>_ t. extends s0 t \<and> state t = S) (\<lambda>e t. \<exists>m. e = ValueError m)"
  proof (rule hoare_bind [OF hoare_sweep_reads [OF assms subset_refl]])
    fix a :: "string list"
    show "hoare (\<lambda>t. (extends s0 t \<and> state t = S) \<and> a = [])
        (\<lambda>s2. (Inr (), s2\<lparr>state := fold AList.delete a (state s2)\<rparr>))
        (\<lambda>_ t. extends s0 t \<and> state t = S) (\<lambda>e t. \<exists>m. e = ValueError m)"
      by (rule hoareI) (auto simp: extends_def same_config_def)
  qed
  have run: "load_state s = ?tail (s\<lparr>calls := calls s @ [WorkspaceDownload (query_state s)],
      state := S\<rparr>)" if ex: "extends s0 s" for s
  proof -
    have dl: "workspace_download (query_state s) s
        = (Inr (Json S), s\<lparr>calls := calls s @ [WorkspaceDownload (query_state s)]\<rparr>)"
      using reads_extends(1,2) [OF assms ex]
      by (simp add: workspace_download_def bind_def invoke_def lift_def)
    show ?thesis
      unfolding load_state_def
      by (simp add: bind_Inr [of "workspace_download (query_state s)" s, OF dl])
  qed
  have start: "extends s0 (s\<lparr>calls := calls s @ [WorkspaceDownload (query_state s)],
      state := S\<rparr>) \<and> state (s\<lparr>calls := calls s @ [WorkspaceDownload (query_state s)],
      state := S\<rparr>) = S" if ex: "extends s0 s" for s
    using ex by (auto simp: extends_def same_config_def)
  show ?thesis
  proof (rule hoareI)
    fix s e t assume ex: "extends s0 s" and l: "load_state s = (Inl e, t)"
    from l run [OF ex] hoare_Inl [OF tail start [OF ex]] show "\<exists>m. e = ValueError m" by simp
  next
    fix s x t assume ex: "extends s0 s" and l: "load_state s = (Inr x, t)"
    from l run [OF ex] hoare_Inr [OF tail start [OF ex]]
    show "extends s0 t \<and> state t = S" by simp
  qed
qed

lemma hoare_load_handled_reads:
  assumes "reads s0 S"
  shows "hoare (extends s0) load_handled (\<lambda>_ t. extends s0 t \<and> state t = S) (\<lambda>_ _. True)"
proof (rule hoareI)
  fix s x t assume ex: "extends s0 s" and lh: "load_handled s = (Inr x, t)"
  obtain r1 s1 where l: "load_state s = (r1, s1)" by (cases "load_state s")
  show "extends s0 t \<and> state t = S"
  proof (cases r1)
    case (Inl e)
    with l hoare_Inl [OF hoare_load_state_reads [OF assms] ex] obtain m where "e = ValueError m"
      by blast
    with Inl l lh show ?thesis by (simp add: load_handled_def)
  next
    case (Inr u)
    with l lh have "t = s1" by (simp add: load_handled_def)
    with Inr l hoare_Inr [OF hoare_load_state_reads [OF assms] ex] show ?thesis by simp
  qed
qed simp

lemma hoare_parent_folder_reads:
  assumes "distinct (map fst S)"
  shows "hoare (\<lambda>t. extends s0 t \<and> state t = S) parent_folder (\<lambda>_. reusing S s0)
      (\<lambda>_ _. True)"
proof (rule hoareI)
  fix s x t assume pre: "extends s0 s \<and> state s = S" and pf: "parent_folder s = (Inr x, t)"
  then have "t = s\<lparr>calls := calls s @ [WorkspaceGetStatus (remote_folder s)]\<rparr>"
    by (auto simp: parent_folder_def workspace_get_status_def bind_def invoke_def lift_def
        split: option.splits)
  with pre assms extends_call [of s0 s "WorkspaceGetStatus (remote_folder s)"]
  show "reusing S s0 t" by (simp add: reusing_def)
qed simp

lemma hoare_installed_query_state_reads:
  assumes "reads s0 S" and "distinct (map fst S)"
  shows "hoare (extends s0) installed_query_state (\<lambda>_. reusing S s0) (\<lambda>_ _. True)"
  unfolding installed_query_state_def
  by (rule hoare_bind [OF hoare_load_handled_reads [OF assms(1)]])
     (rule hoare_parent_folder_reads [OF assms(2)])

lemma bind_InrE:
  assumes "bind m f s = (Inr y, t)"
  obtains x s1 where "m s = (Inr x, s1)" and "f x s1 = (Inr y, t)"
  using assms by (auto simp: bind_def split: prod.splits sum.splits)

lemma delete_widgets_calls:
  "fold_prog (\<lambda>w _. invoke (WidgetsDelete w)) wds () s = (Inr x, t)
   \<Longrightarrow> calls t = calls s @ map WidgetsDelete wds"
proof (induction wds arbitrary: s)
  case Nil
  then show ?case by simp
next
  case (Cons w wds)
  from Cons.prems obtain u s1 where i: "invoke (WidgetsDelete w) s = (Inr u, s1)"
    and f: "fold_prog (\<lambda>w _. invoke (WidgetsDelete w)) wds () s1 = (Inr x, t)"
    by (auto split: prod.splits sum.splits)
  from i have "calls s1 = calls s @ [WidgetsDelete w]"
    by (auto simp: invoke_def split: option.splits)
  with Cons.IH [OF f] show ?case by simp
qed

lemma install_dashboard_cleans:
  assumes "map_of (state s) (dashboard_key ref) = Some d"
    and "install_dashboard dn parent ref s = (Inr x, t)"
  shows "calls t = calls s @ DashboardsGet d
      # map WidgetsDelete (dashboard_widgets (ws s) (calls s) d)"
proof -
  from assms have "bind (dashboards_get d)
      (\<lambda>widgets. fold_prog (\<lambda>w _. invoke (WidgetsDelete w)) widgets ()) s = (Inr x, t)"
    by (simp add: install_dashboard_def)
  then obtain wds s1 where g: "dashboards_get d s = (Inr wds, s1)"
    and f: "fold_prog (\<lambda>w _. invoke (WidgetsDelete w)) wds () s1 = (Inr x, t)"
    by (rule bind_InrE)
  from g have "wds = dashboard_widgets (ws s) (calls s) d"
      "calls s1 = calls s @ [DashboardsGet d]"
    by (auto simp: dashboards_get_def bind_def invoke_def lift_def split: option.splits)
  with delete_widgets_calls [OF f] show ?thesis by simp
qed

lemma install_query_updates:
  assumes "map_of (state s) (query_key q) = Some v"
    and "install_query q dn ds parent s = (Inr x, t)"
  shows "calls t = calls s @ [QueriesUpdate v ds (dn @ '' - '' @ name q) (query q)]"
  using assms by (auto simp: install_query_def invoke_def split: option.splits)

lemma install_viz_updates:
  assumes "map_of (state s) (viz_key q) = Some v" and "install_viz q s = (Inr x, t)"
  shows "\<exists>args. get_viz_options q = Inr args
      \<and> calls t = calls s @ [VisualizationsUpdate v args]"
proof -
  from assms(2) obtain args where a: "get_viz_options q = Inr args"
    by (cases "get_viz_options q") (simp_all add: install_viz_def bind_def lift_def)
  with assms have "invoke (VisualizationsUpdate v args) s = (Inr x, t)"
    by (simp add: install_viz_def bind_def lift_def)
  with a show ?thesis by (auto simp: invoke_def split: option.splits)
qed

lemma updates_mono: "updates S q h \<Longrightarrow> set h \<subseteq> set h' \<Longrightarrow> updates S q h'"
  unfolding updates_def by blast

lemma rerun_artifacts:
  assumes r: "reusing S s0 s"
    and k: "query_key q \<in> recorded_keys s0" "viz_key q \<in> recorded_keys s0"
    and sub: "recorded_keys s0 \<subseteq> fst ` set S"
    and run: "install_artifacts dn ds parent ref q s = (Inr x, t)"
  shows "reusing S s0 t \<and> (\<exists>later. calls t = calls s @ later \<and> updates S q later)"
proof -
  from run obtain u1 s1 where iq: "install_query q dn ds parent s = (Inr u1, s1)"
    and rest: "bind (install_viz q) (\<lambda>_. install_widget q ref) s1 = (Inr x, t)"
    unfolding install_artifacts_def by (rule bind_InrE)
  from rest obtain u2 s2 where iv: "install_viz q s1 = (Inr u2, s2)"
    and iw: "install_widget q ref s2 = (Inr x, t)"
    by (rule bind_InrE)
  from hoare_Inr [OF hoare_install_query_reusing [OF k(1) sub] r iq]
  have r1: "reusing S s0 s1" .
  from hoare_Inr [OF hoare_install_viz_reusing [OF k(2) sub] r1 iv]
  have r2: "reusing S s0 s2" .
  from hoare_Inr [OF hoare_install_widget_reusing r2 iw]
  have r3: "reusing S s0 t" .
  from recorded [OF r k(1) sub] obtain v where
    v: "map_of (state s) (query_key q) = Some v" "map_of S (query_key q) = Some v"
    by blast
  from recorded [OF r1 k(2) sub] obtain v' where
    v': "map_of (state s1) (viz_key q) = Some v'" "map_of S (viz_key q) = Some v'"
    by blast
  from install_query_updates [OF v(1) iq]
  have c1: "calls s1 = calls s @ [QueriesUpdate v ds (dn @ '' - '' @ name q) (query q)]" .
  from install_viz_updates [OF v'(1) iv] obtain args where
    a: "get_viz_options q = Inr args" and c2: "calls s2 = calls s1 @ [VisualizationsUpdate v' args]"
    by blast
  from install_widget_state [OF iw] obtain d opts vv where
    c3: "calls t = calls s2 @ [WidgetsCreate d opts vv]"
    by blast
  let ?more = "[QueriesUpdate v ds (dn @ '' - '' @ name q) (query q),
      VisualizationsUpdate v' args, WidgetsCreate d opts vv]"
  from c1 c2 c3 have "calls t = calls s @ ?more" by simp
  moreover from v(2) v'(2) a have "updates S q ?more"
    unfolding updates_def by auto
  ultimately show ?thesis using r3 by blast
qed

lemma rerun_queries:
  assumes sub: "recorded_keys s0 \<subseteq> fst ` set S"
  shows "\<forall>q\<in>set qs. query_key q \<in> recorded_keys s0 \<and> viz_key q \<in> recorded_keys s0 \<Longrightarrow>
    reusing S s0 s \<Longrightarrow>
    fold_prog (\<lambda>q _. install_artifacts dn ds parent ref q) qs () s = (Inr x, t) \<Longrightarrow>
    reusing S s0 t \<and> (\<exists>later. calls t = calls s @ later \<and> (\<forall>q\<in>set qs. updates S q later))"
proof (induction qs arbitrary: s)
  case Nil
  then show ?case by simp
next
  case (Cons q qs)
  from Cons.prems(3) obtain u s1 where
    a: "install_artifacts dn ds parent ref q s = (Inr u, s1)"
    and f: "fold_prog (\<lambda>q _. install_artifacts dn ds parent ref q) qs () s1 = (Inr x, t)"
    by (auto split: prod.splits sum.splits)
  from Cons.prems(1) have k: "query_key q \<in> recorded_keys s0" "viz_key q \<in> recorded_keys s0"
    by simp_all
  from rerun_artifacts [OF Cons.prems(2) k sub a] obtain m1 where
    r1: "reusing S s0 s1" and c1: "calls s1 = calls s @ m1" and u1: "updates S q m1"
    by blast
  from Cons.prems(1) have "\<forall>q\<in>set qs. query_key q \<in> recorded_keys s0
      \<and> viz_key q \<in> recorded_keys s0" by simp
  from Cons.IH [OF this r1 f] obtain m2 where
    r2: "reusing S s0 t" and c2: "calls t = calls s1 @ m2" and u2: "\<forall>q\<in>set qs. updates S q m2"
    by blast
  from c1 c2 have "calls t = calls s @ (m1 @ m2)" by simp
  moreover from u1 have "updates S q (m1 @ m2)" by (rule updates_mono) simp
  moreover from u2 have "\<forall>q\<in>set qs. updates S q (m1 @ m2)"
    by (auto intro: updates_mono)
  ultimately show ?case using r2 by (intro conjI exI [of _ "m1 @ m2"]) simp_all
qed


lemma desired_in_all:
  assumes "p \<in> set (folders (local_folder s))" and "desired_of s p = Inr qs" and "q \<in> set qs"
  shows "q \<in> set (all_desired s)"
  using assms by (force simp: all_desired_def queries_of_def)

lemma quiet_calls_config:
  "quiet P s t \<Longrightarrow> \<exists>h. calls t = calls s @ h \<and> ws t = ws s"
  by (auto simp: quiet_def same_config_def)

text \<open>One dashboard folder of a run over what is recorded.\<close>

lemma rerun_folder:
  assumes rd: "reads s0 S" and sub: "recorded_keys s0 \<subseteq> fst ` set S"
    and dist: "distinct (map fst S)"
    and p: "p \<in> set (folders (local_folder s0))"
    and ex: "extends s0 s"
    and run: "install_folder (fst p) (snd p) acc s = (Inr a, t)"
  shows "\<exists>d qs. map_of S (dashboard_key (ref_of p)) = Some d \<and> desired_of s0 p = Inr qs
      \<and> a = (AList.update (ref_of p) d (fst acc), AList.update (ref_of p) qs (snd acc))
      \<and> reusing S s0 t
      \<and> (\<exists>h later. calls t = calls s @ h @ DashboardsGet d
              # map WidgetsDelete (dashboard_widgets (ws s) (calls s @ h) d) @ later
            \<and> (\<forall>q\<in>set qs. updates S q later))"
proof -
  let ?ref = "ref_of p"
  let ?dn = "dashboard_name_of s (fst p) (snd p)"
  from ex have sc: "same_config s0 s" by (simp add: extends_def)
  note d = same_config_desired [OF sc, of p]
  from p have dk: "dashboard_key ?ref \<in> recorded_keys s0" by (simp add: recorded_keys_def)
  from run d obtain qs where qs: "desired_of s0 p = Inr qs"
    by (cases "desired_of s0 p")
       (simp_all add: install_folder_def desired_of_def bind_def lift_def)
  with run d have body: "bind installed_query_state
         (\<lambda>parent. bind dashboard_data_source
            (\<lambda>ds. bind (install_dashboard ?dn parent ?ref)
               (\<lambda>_. bind (fold_prog (\<lambda>q _. install_artifacts ?dn ds parent ?ref q) qs ())
                  (\<lambda>_. bind (state_get (dashboard_key ?ref))
                     (\<lambda>d. lift (Inr (AList.update ?ref d (fst acc),
                                      AList.update ?ref qs (snd acc)))))))) s = (Inr a, t)"
    by (simp add: install_folder_def desired_of_def bind_lift_Inr Let_def ref_of_def)
  from body obtain parent s1 where 1: "installed_query_state s = (Inr parent, s1)"
    and b1: "bind dashboard_data_source
            (\<lambda>ds. bind (install_dashboard ?dn parent ?ref)
               (\<lambda>_. bind (fold_prog (\<lambda>q _. install_artifacts ?dn ds parent ?ref q) qs ())
                  (\<lambda>_. bind (state_get (dashboard_key ?ref))
                     (\<lambda>d. lift (Inr (AList.update ?ref d (fst acc),
                                      AList.update ?ref qs (snd acc))))))) s1 = (Inr a, t)"
    by (rule bind_InrE)
  from b1 obtain ds s2 where 2: "dashboard_data_source s1 = (Inr ds, s2)"
    and b2: "bind (install_dashboard ?dn parent ?ref)
               (\<lambda>_. bind (fold_prog (\<lambda>q _. install_artifacts ?dn ds parent ?ref q) qs ())
                  (\<lambda>_. bind (state_get (dashboard_key ?ref))
                     (\<lambda>d. lift (Inr (AList.update ?ref d (fst acc),
                                      AList.update ?ref qs (snd acc)))))) s2 = (Inr a, t)"
    by (rule bind_InrE)
  from b2 obtain u3 s3 where 3: "install_dashboard ?dn parent ?ref s2 = (Inr u3, s3)"
    and b3: "bind (fold_prog (\<lambda>q _. install_artifacts ?dn ds parent ?ref q) qs ())
                  (\<lambda>_. bind (state_get (dashboard_key ?ref))
                     (\<lambda>d. lift (Inr (AList.update ?ref d (fst acc),
                                      AList.update ?ref qs (snd acc))))) s3 = (Inr a, t)"
    by (rule bind_InrE)
  from b3 obtain u4 s4 where
    4: "fold_prog (\<lambda>q _. install_artifacts ?dn ds parent ?ref q) qs () s3 = (Inr u4, s4)"
    and b4: "bind (state_get (dashboard_key ?ref))
                     (\<lambda>d. lift (Inr (AList.update ?ref d (fst acc),
                                      AList.update ?ref qs (snd acc)))) s4 = (Inr a, t)"
    by (rule bind_InrE)
  from b4 obtain d' s5 where 5: "state_get (dashboard_key ?ref) s4 = (Inr d', s5)"
    and b5: "lift (Inr (AList.update ?ref d' (fst acc), AList.update ?ref qs (snd acc))) s5
        = (Inr a, t)"
    by (rule bind_InrE)
  from hoare_Inr [OF hoare_installed_query_state_reads [OF rd dist] ex 1]
  have r1: "reusing S s0 s1" .
  from hoare_Inr [OF hoare_dashboard_data_source_reusing r1 2]
  have r2: "reusing S s0 s2" .
  from hoare_Inr [OF hoare_install_dashboard_reusing [OF dk sub] r2 3]
  have r3: "reusing S s0 s3" .
  have keys: "\<forall>q\<in>set qs. query_key q \<in> recorded_keys s0 \<and> viz_key q \<in> recorded_keys s0"
    using desired_in_all [OF p qs] by (simp add: recorded_keys_def)
  from rerun_queries [OF sub keys r3 4] obtain later where
    r4: "reusing S s0 s4" and c4: "calls s4 = calls s3 @ later"
    and u: "\<forall>q\<in>set qs. updates S q later"
    by blast
  from recorded [OF r2 dk sub] obtain dd where
    dd: "map_of (state s2) (dashboard_key ?ref) = Some dd" "map_of S (dashboard_key ?ref) = Some dd"
    by blast
  from recorded [OF r4 dk sub] dd(2)
  have "map_of (state s4) (dashboard_key ?ref) = Some dd" by auto
  with 5 have d': "d' = dd" "s5 = s4" by (simp_all add: state_get_def)
  with b5 have a: "a = (AList.update ?ref dd (fst acc), AList.update ?ref qs (snd acc))"
      and t: "t = s4"
    by (simp_all add: lift_def)
  from quiet_calls_config [OF keepsD [OF keeps_installed_query_state 1]] obtain h1 where
    c1: "calls s1 = calls s @ h1" "ws s1 = ws s" by blast
  from quiet_calls_config [OF keepsD [OF keeps_dashboard_data_source 2]] obtain h2 where
    c2: "calls s2 = calls s1 @ h2" "ws s2 = ws s1" by blast
  from install_dashboard_cleans [OF dd(1) 3]
  have c3: "calls s3 = calls s2 @ DashboardsGet dd
      # map WidgetsDelete (dashboard_widgets (ws s2) (calls s2) dd)" .
  from c1 c2 c3 c4 t have "calls t = calls s @ (h1 @ h2) @ DashboardsGet dd
      # map WidgetsDelete (dashboard_widgets (ws s) (calls s @ (h1 @ h2)) dd) @ later"
    by simp
  with u have "\<exists>h later. calls t = calls s @ h @ DashboardsGet dd
              # map WidgetsDelete (dashboard_widgets (ws s) (calls s @ h) dd) @ later
            \<and> (\<forall>q\<in>set qs. updates S q later)"
    by blast
  with dd(2) qs a r4 t show ?thesis by blast
qed

lemma new_calls_append: "calls t = calls s @ h \<Longrightarrow> new_calls s t = h"
  by (simp add: new_calls_def)

lemma cleans_grows:
  assumes "cleans s0 s d" and "calls s = calls s0 @ n0" and "calls t = calls s @ later"
  shows "cleans s0 t d"
proof -
  from assms(2) have "new_calls s0 s = n0" by (rule new_calls_append)
  with assms(1) obtain h rest where
    "n0 = h @ DashboardsGet d # map WidgetsDelete (dashboard_widgets (ws s0) (calls s0 @ h) d) @ rest"
    by (auto simp: cleans_def)
  with assms(2,3) have "calls t = calls s0 @ (h @ DashboardsGet d
      # map WidgetsDelete (dashboard_widgets (ws s0) (calls s0 @ h) d) @ (rest @ later))"
    by simp
  from new_calls_append [OF this] show ?thesis unfolding cleans_def by blast
qed

lemma updates_grows:
  assumes "updates S q (new_calls s0 s)" and "calls s = calls s0 @ n0"
    and "calls t = calls s @ later"
  shows "updates S q (new_calls s0 t)"
proof -
  from assms(2) have "new_calls s0 s = n0" by (rule new_calls_append)
  moreover from assms(2,3) have "calls t = calls s0 @ (n0 @ later)" by simp
  then have "new_calls s0 t = n0 @ later" by (rule new_calls_append)
  ultimately show ?thesis using assms(1) by (auto intro: updates_mono)
qed

lemma queries_per_dashboard_snoc:
  "queries_per_dashboard s (ps @ [p])
     = AList.update (ref_of p) (case desired_of s p of Inl e \<Rightarrow> [] | Inr qs \<Rightarrow> qs)
         (queries_per_dashboard s ps)"
  by (simp add: queries_per_dashboard_def)

text \<open>The loop over the folders of a run over what is recorded.\<close>

lemma rerun_folders:
  assumes rd: "reads s0 S" and sub: "recorded_keys s0 \<subseteq> fst ` set S"
    and dist: "distinct (map fst S)"
  shows "hoare (reused S s0 [] ([], []))
      (fold_prog (\<lambda>p. install_folder (fst p) (snd p)) (folders (local_folder s0)) ([], []))
      (reused S s0 (folders (local_folder s0))) (\<lambda>_ _. True)"
proof (rule hoare_fold_prog [where I = "reused S s0"])
  fix ys x zs and acc :: "(string \<times> ident) list \<times> (string \<times> simple_query list) list"
  assume xs: "folders (local_folder s0) = ys @ x # zs"
  then have x: "x \<in> set (folders (local_folder s0))" by simp
  show "hoare (reused S s0 ys acc) (install_folder (fst x) (snd x) acc)
      (reused S s0 (ys @ [x])) (\<lambda>_ _. True)"
  proof (rule hoareI)
    fix s a t
    assume pre: "reused S s0 ys acc s"
      and i: "install_folder (fst x) (snd x) acc s = (Inr a, t)"
    from pre have ex: "extends s0 s" by (simp add: reused_def)
    then obtain n0 where n0: "calls s = calls s0 @ n0" and w: "ws s = ws s0"
      by (auto simp: extends_def same_config_def)
    from rerun_folder [OF rd sub dist x ex i] obtain d qs h later where
      d: "map_of S (dashboard_key (ref_of x)) = Some d" and qs: "desired_of s0 x = Inr qs"
      and a: "a = (AList.update (ref_of x) d (fst acc), AList.update (ref_of x) qs (snd acc))"
      and r: "reusing S s0 t"
      and c: "calls t = calls s @ h @ DashboardsGet d
              # map WidgetsDelete (dashboard_widgets (ws s) (calls s @ h) d) @ later"
      and u: "\<forall>q\<in>set qs. updates S q later"
      by blast
    from r have e: "extends s0 t" by (simp add: reusing_def)
    have dash: "map_of (fst a) (ref_of p) = map_of S (dashboard_key (ref_of p))"
      if "p \<in> set (ys @ [x])" for p
    proof (cases "ref_of p = ref_of x")
      case True
      with a d show ?thesis by (simp add: update_conv')
    next
      case False
      with that have "p \<in> set ys" by auto
      with pre False a show ?thesis by (simp add: reused_def update_conv')
    qed
    from pre a qs have per: "snd a = queries_per_dashboard s0 (ys @ [x])"
      by (simp add: reused_def queries_per_dashboard_snoc)
    from c n0 w have new: "calls t = calls s0 @ (n0 @ h) @ DashboardsGet d
        # map WidgetsDelete (dashboard_widgets (ws s0) (calls s0 @ (n0 @ h)) d) @ later"
      by simp
    have cl: "cleans s0 t d'"
      if "p \<in> set (ys @ [x])" and "map_of S (dashboard_key (ref_of p)) = Some d'" for p d'
    proof (cases "p \<in> set ys")
      case True
      with pre that(2) have "cleans s0 s d'" by (simp add: reused_def)
      then show ?thesis using n0 c by (rule cleans_grows)
    next
      case False
      with that d have "d' = d" by simp
      with new_calls_append [OF new] show ?thesis unfolding cleans_def by blast
    qed
    have up: "updates S q (new_calls s0 t)" if "q \<in> set (queries_of s0 (ys @ [x]))" for q
    proof (cases "q \<in> set (queries_of s0 ys)")
      case True
      with pre have "updates S q (new_calls s0 s)" by (simp add: reused_def)
      then show ?thesis using n0 c by (rule updates_grows)
    next
      case False
      with that qs have "q \<in> set qs" by (simp add: queries_of_snoc)
      with u have "updates S q later" by simp
      then have "updates S q ((n0 @ h) @ DashboardsGet d
          # map WidgetsDelete (dashboard_widgets (ws s0) (calls s0 @ (n0 @ h)) d) @ later)"
        by (rule updates_mono) auto
      with new_calls_append [OF new] show ?thesis by simp
    qed
    from e r dash per cl up show "reused S s0 (ys @ [x]) a t"
      unfolding reused_def by blast
  qed simp
qed


lemma store_entry_state: "store_entry d kv acc s = (r, t) \<Longrightarrow> state t = state s"
  by (auto simp: store_entry_def invoke_def
      split: if_splits sum.splits prod.splits option.splits)

lemma fold_prog_state:
  assumes "\<And>x a s r t. f x a s = (r, t) \<Longrightarrow> state t = state s"
  shows "fold_prog f xs acc s = (r, t) \<Longrightarrow> state t = state s"
proof (induction xs arbitrary: acc s)
  case Nil
  then show ?case by simp
next
  case (Cons x xs)
  obtain r1 s1 where f: "f x acc s = (r1, s1)" by (cases "f x acc s")
  from assms [OF f] have st: "state s1 = state s" .
  show ?case
  proof (cases r1)
    case (Inl e)
    with f Cons.prems st show ?thesis by simp
  next
    case (Inr a)
    with f Cons.prems have "fold_prog f xs a s1 = (r, t)" by simp
    from Cons.IH [OF this] st show ?thesis by simp
  qed
qed

lemma store_entry_result:
  "store_entry desired kv acc s = (Inr a, t) \<Longrightarrow>
   a = (if fst kv \<in> set desired then AList.update (fst kv) (snd kv) acc else acc)"
  by (auto simp: store_entry_def invoke_def
      split: if_splits sum.splits prod.splits option.splits)

lemma store_fold_desired:
  "fold_prog (store_entry desired) items acc s = (Inr ns, t) \<Longrightarrow> distinct (map fst items)
   \<Longrightarrow> k \<in> set desired
   \<Longrightarrow> map_of ns k = (case map_of items k of Some v \<Rightarrow> Some v | None \<Rightarrow> map_of acc k)"
proof (induction items arbitrary: acc s)
  case Nil
  then show ?case by simp
next
  case (Cons kv items)
  from Cons.prems(1) obtain a s1 where e: "store_entry desired kv acc s = (Inr a, s1)"
    and f: "fold_prog (store_entry desired) items a s1 = (Inr ns, t)"
    by (auto split: prod.splits sum.splits)
  from Cons.prems(2) have d: "distinct (map fst items)" and n: "fst kv \<notin> fst ` set items"
    by simp_all
  note ih = Cons.IH [OF f d Cons.prems(3)]
  note a = store_entry_result [OF e]
  show ?case
  proof (cases "fst kv = k")
    case True
    with n have "map_of items k = None" by (simp add: map_of_eq_None_iff)
    with ih a True Cons.prems(3) show ?thesis by (cases kv) (simp add: update_conv')
  next
    case False
    with a have "map_of a k = map_of acc k" by (simp add: update_conv')
    with ih False show ?thesis by (cases kv) (simp split: option.splits)
  qed
qed

text \<open>What the save step does when it returns.\<close>

lemma store_uploads:
  assumes "store_query_state qd s = (Inr x, t)"
  shows "\<exists>dels up. calls t = calls s @ dels @ [WorkspaceUpload (query_state s) up]
      \<and> list_all reuse_call dels \<and> state t = state s
      \<and> (distinct (map fst (state s)) \<longrightarrow>
           (\<forall>k\<in>set (desired_keys qd). map_of up k = map_of (state s) k))"
proof -
  from assms obtain up s2 where
    f: "fold_prog (store_entry (desired_keys qd)) (state s) [] s = (Inr up, s2)"
    and i: "invoke (WorkspaceUpload (query_state s2) up) s2 = (Inr x, t)"
    unfolding store_query_state_def by (rule bind_InrE)
  have "keeps reuse_call (fold_prog (store_entry (desired_keys qd)) (state s) [])"
    by (intro keeps_fold_prog keeps_store_entry) simp_all
  from keepsD [OF this f] obtain dels where
    dels: "calls s2 = calls s @ dels" "list_all reuse_call dels" and q: "query_state s2 = query_state s"
    by (auto simp: quiet_def same_config_def query_state_def)
  from fold_prog_state [of "store_entry (desired_keys qd)", OF store_entry_state f]
  have st: "state s2 = state s" .
  from i have t: "calls t = calls s2 @ [WorkspaceUpload (query_state s2) up]" "state t = state s2"
    by (auto simp: invoke_def split: option.splits)
  have "map_of up k = map_of (state s) k"
    if "distinct (map fst (state s))" and "k \<in> set (desired_keys qd)" for k
    using store_fold_desired [OF f that] by (simp split: option.splits)
  with dels q st t show ?thesis by (intro exI [of _ dels] exI [of _ up]) simp
qed

lemma desired_keys_dashboard:
  "(ref, qs) \<in> set qd \<Longrightarrow> dashboard_key ref \<in> set (desired_keys qd)"
  by (force simp: desired_keys_def)

lemma desired_keys_query:
  "(ref, qs) \<in> set qd \<Longrightarrow> q \<in> set qs
   \<Longrightarrow> query_key q \<in> set (desired_keys qd) \<and> viz_key q \<in> set (desired_keys qd)"
  by (force simp: desired_keys_def)

lemma per_dashboard_dom:
  "p \<in> set ps \<Longrightarrow> ref_of p \<in> fst ` set (queries_per_dashboard s ps)"
  by (induction ps rule: rev_induct) (auto simp: queries_per_dashboard_snoc dom_update)

lemma per_dashboard_distinct:
  "distinct (map ref_of ps) \<Longrightarrow> p \<in> set ps \<Longrightarrow>
   map_of (queries_per_dashboard s ps) (ref_of p)
     = Some (case desired_of s p of Inl e \<Rightarrow> [] | Inr qs \<Rightarrow> qs)"
proof (induction ps rule: rev_induct)
  case Nil
  then show ?case by simp
next
  case (snoc x ps)
  show ?case
  proof (cases "p = x")
    case True
    then show ?thesis by (simp add: queries_per_dashboard_snoc update_conv')
  next
    case False
    with snoc.prems have in_ps: "p \<in> set ps" and d: "distinct (map ref_of ps)"
      and nx: "ref_of x \<notin> ref_of ` set ps"
      by auto
    have "ref_of p \<noteq> ref_of x"
    proof
      assume e: "ref_of p = ref_of x"
      from in_ps have "ref_of p \<in> ref_of ` set ps" by (rule imageI)
      with e nx show False by simp
    qed
    with snoc.IH [OF d in_ps] show ?thesis
      by (simp add: queries_per_dashboard_snoc update_conv')
  qed
qed

lemma all_desired_folder:
  "q \<in> set (all_desired s) \<Longrightarrow>
   \<exists>p\<in>set (folders (local_folder s)). \<exists>qs. desired_of s p = Inr qs \<and> q \<in> set qs"
proof -
  assume "q \<in> set (all_desired s)"
  then obtain p where p: "p \<in> set (folders (local_folder s))"
    and q: "q \<in> set (case desired_of s p of Inl e \<Rightarrow> [] | Inr qs \<Rightarrow> qs)"
    by (auto simp: all_desired_def queries_of_def)
  then show ?thesis by (cases "desired_of s p") auto
qed

lemma create_dashboards_unfold:
  "create_dashboards s =
     bind (fold_prog (\<lambda>p. install_folder (fst p) (snd p)) (folders (local_folder s)) ([], []))
       (\<lambda>acc. bind (store_query_state (snd acc)) (\<lambda>_. lift (Inr (fst acc)))) s"
  by (simp add: create_dashboards_def bind_def fold_prog_nested)

lemma reused_start: "reused S s [] ([], []) s"
  by (simp add: reused_def extends_refl queries_per_dashboard_def queries_of_def)

text \<open>A run over what is recorded, taken apart.\<close>

lemma rerun:
  assumes run: "create_dashboards s = (Inr ds, t)"
    and rd: "reads s S" and sub: "recorded_keys s \<subseteq> fst ` set S"
    and dist: "distinct (map fst S)"
  obtains acc s1 n0 dels up where
    "reused S s (folders (local_folder s)) acc s1" "ds = fst acc"
    "calls s1 = calls s @ n0" "list_all reuse_call n0" "list_all reuse_call dels"
    "calls t = calls s1 @ dels @ [WorkspaceUpload (query_state s) up]"
    "state t = state s1"
    "distinct (map fst (state s1)) \<longrightarrow>
       (\<forall>k\<in>set (desired_keys (snd acc)). map_of up k = map_of (state s1) k)"
proof -
  let ?ps = "folders (local_folder s)"
  from run obtain acc s1 where
    f: "fold_prog (\<lambda>p. install_folder (fst p) (snd p)) ?ps ([], []) s = (Inr acc, s1)"
    and b: "bind (store_query_state (snd acc)) (\<lambda>_. lift (Inr (fst acc))) s1 = (Inr ds, t)"
    unfolding create_dashboards_unfold by (rule bind_InrE)
  from hoare_Inr [OF rerun_folders [OF rd sub dist] reused_start f]
  have inv: "reused S s ?ps acc s1" .
  from b obtain u s2 where st: "store_query_state (snd acc) s1 = (Inr u, s2)"
    and l: "lift (Inr (fst acc)) s2 = (Inr ds, t)"
    by (rule bind_InrE)
  from l have ds: "ds = fst acc" and t: "t = s2" by (simp_all add: lift_def)
  from inv obtain n0 where n0: "calls s1 = calls s @ n0" "list_all reuse_call n0"
    and q: "query_state s1 = query_state s"
    by (auto simp: reused_def extends_def same_config_def query_state_def)
  from store_uploads [OF st] t q obtain dels up where
    "list_all reuse_call dels"
    "calls t = calls s1 @ dels @ [WorkspaceUpload (query_state s) up]"
    "state t = state s1"
    "distinct (map fst (state s1)) \<longrightarrow>
       (\<forall>k\<in>set (desired_keys (snd acc)). map_of up k = map_of (state s1) k)"
    by auto
  with inv ds n0 show ?thesis by (rule that)
qed

lemma last_upload_none: "list_all (\<lambda>c. \<not> is_upload c) new \<Longrightarrow> last_upload new = None"
  by (induction new) (auto simp: is_upload_def split: call.splits)

lemma last_upload_append:
  "list_all (\<lambda>c. \<not> is_upload c) new \<Longrightarrow> last_upload (h @ new) = last_upload h"
  by (induction h) (simp_all add: last_upload_none)

lemma strict_reads:
  assumes "last_upload (calls s) = Some S" and "ws s = strict_remote"
    and "\<forall>kv\<in>set S. swept kv \<longrightarrow> take 2 (snd kv) = ''q/''"
  shows "reads s S"
  unfolding reads_def
  using assms(3) by (auto simp: assms(1,2) strict_remote_def memory_remote_def last_upload_append)

text \<open>
  C2, as stated, fails: a second run over the same folders does not issue update calls
  only. \<^verbatim>\<open>_install_dashboard\<close> deletes the widgets of a dashboard it finds in
  the state and \<^verbatim>\<open>_install_widget\<close> creates a widget for every query (``widgets
  are cleaned up every dashboard redeploy''). After a first run over two folders in an
  empty workspace, the second run returns the same dashboards, deletes the widget the
  first run made and creates two widgets.
\<close>

theorem rerun_creates_widgets:
  "fst (create_dashboards ((installer None two_folders)\<lparr>ws := strict_remote\<rparr>))
     = Inr [(''s_a'', ''d/P S (A)''), (''s_b'', ''d/P S (B)'')]
   \<and> fst (create_dashboards second_run)
     = Inr [(''s_a'', ''d/P S (A)''), (''s_b'', ''d/P S (B)'')]
   \<and> length (filter is_widget_create (new_calls second_run (snd (create_dashboards second_run))))
     = 2
   \<and> WidgetsDelete ''w/v/q/P S (A) - x.sql''
       \<in> set (new_calls second_run (snd (create_dashboards second_run)))"
  by code_simp

text \<open>
  C2, amended: take a run of \<^verbatim>\<open>create_dashboards\<close> that returns, over a state
  file that every load of the run downloads and decodes to the dictionary \<open>S\<close>, where
  the queries \<open>S\<close> records under a \<^verbatim>\<open>query_id\<close> key still exist, and \<open>S\<close>
  records the dashboard of every folder and the query and the visualization of every
  definition file. The run creates no dashboard, no query and no visualization. It returns
  for every folder the dashboard \<open>S\<close> records, and its state ends with the query and
  visualization identifiers of \<open>S\<close>. Every query and every visualization is updated
  under the identifier \<open>S\<close> records; every recorded dashboard is fetched and the
  widgets the service lists for it are deleted; one widget is created for every query.
  The run ends with its only upload, of a state that holds the recorded dashboard
  identifiers and, when no two folders share a reference, the recorded query and
  visualization identifiers.
\<close>

theorem rerun_reuses_identifiers:
  assumes "create_dashboards s = (Inr ds, t)"
    and "reads s S"
    and "recorded_keys s \<subseteq> fst ` set S"
    and "distinct (map fst S)"
  shows "list_all (\<lambda>c. \<not> creates c) (new_calls s t)
       \<and> (\<forall>p\<in>set (folders (local_folder s)).
             map_of ds (ref_of p) = map_of S (dashboard_key (ref_of p)))
       \<and> (\<forall>q\<in>set (all_desired s).
             map_of (state t) (query_key q) = map_of S (query_key q)
             \<and> map_of (state t) (viz_key q) = map_of S (viz_key q))
       \<and> length (widget_rows (new_calls s t)) = length (all_desired s)
       \<and> (\<forall>q\<in>set (all_desired s). updates S q (new_calls s t))
       \<and> (\<forall>p\<in>set (folders (local_folder s)). \<forall>d.
             map_of S (dashboard_key (ref_of p)) = Some d \<longrightarrow> cleans s t d)
       \<and> (\<exists>up. uploads s t up
            \<and> (\<forall>p\<in>set (folders (local_folder s)).
                  map_of up (dashboard_key (ref_of p)) = map_of S (dashboard_key (ref_of p)))
            \<and> (distinct (map ref_of (folders (local_folder s))) \<longrightarrow>
                 (\<forall>q\<in>set (all_desired s).
                    map_of up (query_key q) = map_of S (query_key q)
                    \<and> map_of up (viz_key q) = map_of S (viz_key q))))"
proof -
  let ?F = "folders (local_folder s)"
  from rerun [OF assms] obtain acc s1 n0 dels up where
    inv: "reused S s ?F acc s1" and ds: "ds = fst acc"
    and c1: "calls s1 = calls s @ n0" and n0: "list_all reuse_call n0"
    and dels: "list_all reuse_call dels"
    and ct: "calls t = calls s1 @ dels @ [WorkspaceUpload (query_state s) up]"
    and st: "state t = state s1"
    and content: "distinct (map fst (state s1)) \<longrightarrow>
       (\<forall>k\<in>set (desired_keys (snd acc)). map_of up k = map_of (state s1) k)"
    by blast
  from c1 ct have "calls t = calls s @ (n0 @ dels) @ [WorkspaceUpload (query_state s) up]"
    by simp
  from new_calls_append [OF this]
  have nc: "new_calls s t = (n0 @ dels) @ [WorkspaceUpload (query_state s) up]" .
  from n0 dels have quiet: "list_all (\<lambda>c. \<not> is_upload c) (n0 @ dels)"
      "list_all (\<lambda>c. \<not> creates c) (n0 @ dels)"
    by (auto simp: list_all_iff reuse_call_def)
  have a: "list_all (\<lambda>c. \<not> creates c) (new_calls s t)"
    using quiet(2) by (simp add: nc creates_def)
  from inv ds have b: "\<forall>p\<in>set ?F. map_of ds (ref_of p) = map_of S (dashboard_key (ref_of p))"
    by (simp add: reused_def)
  have agree: "map_of (state s1) k = map_of S k" if "k \<in> recorded_keys s" for k
  proof (cases "?F = []")
    case True
    with that show ?thesis by (simp add: recorded_keys_def all_desired_def queries_of_def)
  next
    case False
    with inv that show ?thesis by (simp add: reused_def reusing_def)
  qed
  have c: "\<forall>q\<in>set (all_desired s).
             map_of (state t) (query_key q) = map_of S (query_key q)
             \<and> map_of (state t) (viz_key q) = map_of S (viz_key q)"
    using agree st by (simp add: recorded_keys_def)
  from hoare_Inr [OF hoare_create_dashboards _ assms(1)]
  have "track s (all_desired s) t" by (simp add: counted_def)
  from track_rows [OF this]
  have d: "length (widget_rows (new_calls s t)) = length (all_desired s)" by simp
  have e: "\<forall>q\<in>set (all_desired s). updates S q (new_calls s t)"
  proof
    fix q assume "q \<in> set (all_desired s)"
    with inv have "updates S q (new_calls s s1)" by (simp add: reused_def all_desired_def)
    then show "updates S q (new_calls s t)" using c1 ct by (rule updates_grows)
  qed
  have f: "\<forall>p\<in>set ?F. \<forall>d. map_of S (dashboard_key (ref_of p)) = Some d \<longrightarrow> cleans s t d"
  proof (intro ballI allI impI)
    fix p d assume "p \<in> set ?F" "map_of S (dashboard_key (ref_of p)) = Some d"
    with inv have "cleans s s1 d" by (simp add: reused_def)
    then show "cleans s t d" using c1 ct by (rule cleans_grows)
  qed
  have up: "uploads s t up"
    unfolding uploads_def using nc quiet(1) by blast
  have kept: "map_of up k = map_of S k"
    if k: "k \<in> recorded_keys s" "k \<in> set (desired_keys (snd acc))" and ne: "?F \<noteq> []" for k
  proof -
    from inv ne have "distinct (map fst (state s1))" by (simp add: reused_def reusing_def)
    with content k(2) have "map_of up k = map_of (state s1) k" by simp
    with agree [OF k(1)] show ?thesis by simp
  qed
  from inv have per: "snd acc = queries_per_dashboard s ?F" by (simp add: reused_def)
  have g: "\<forall>p\<in>set ?F. map_of up (dashboard_key (ref_of p)) = map_of S (dashboard_key (ref_of p))"
  proof
    fix p assume p: "p \<in> set ?F"
    from per_dashboard_dom [OF p, of s] per obtain qs where "(ref_of p, qs) \<in> set (snd acc)"
      by auto
    then have "dashboard_key (ref_of p) \<in> set (desired_keys (snd acc))"
      by (rule desired_keys_dashboard)
    moreover from p have "dashboard_key (ref_of p) \<in> recorded_keys s"
      by (simp add: recorded_keys_def)
    moreover from p have "?F \<noteq> []" by auto
    ultimately show "map_of up (dashboard_key (ref_of p)) = map_of S (dashboard_key (ref_of p))"
      by (intro kept)
  qed
  have h: "\<forall>q\<in>set (all_desired s).
                    map_of up (query_key q) = map_of S (query_key q)
                    \<and> map_of up (viz_key q) = map_of S (viz_key q)"
    if refs: "distinct (map ref_of ?F)"
  proof
    fix q assume q: "q \<in> set (all_desired s)"
    from all_desired_folder [OF q] obtain p qs where p: "p \<in> set ?F"
      and qs: "desired_of s p = Inr qs" "q \<in> set qs"
      by blast
    from per_dashboard_distinct [OF refs p, of s] per qs(1)
    have "map_of (snd acc) (ref_of p) = Some qs" by simp
    then have "(ref_of p, qs) \<in> set (snd acc)" by (rule map_of_SomeD)
    from desired_keys_query [OF this qs(2)]
    have "query_key q \<in> set (desired_keys (snd acc))" "viz_key q \<in> set (desired_keys (snd acc))"
      by simp_all
    moreover from q have "query_key q \<in> recorded_keys s" "viz_key q \<in> recorded_keys s"
      by (simp_all add: recorded_keys_def)
    moreover from p have "?F \<noteq> []" by auto
    ultimately show "map_of up (query_key q) = map_of S (query_key q)
        \<and> map_of up (viz_key q) = map_of S (viz_key q)"
      by (intro conjI kept)
  qed
  from up g h have "\<exists>up. uploads s t up
            \<and> (\<forall>p\<in>set ?F.
                  map_of up (dashboard_key (ref_of p)) = map_of S (dashboard_key (ref_of p)))
            \<and> (distinct (map ref_of ?F) \<longrightarrow>
                 (\<forall>q\<in>set (all_desired s).
                    map_of up (query_key q) = map_of S (query_key q)
                    \<and> map_of up (viz_key q) = map_of S (viz_key q)))"
    by blast
  with a b c d e f show ?thesis by blast
qed

theorem rerun_reuses_identifiers_witness:
  "reads second_run (entries_a @ entries_b)
   \<and> fst (create_dashboards second_run)
       = Inr [(''s_a'', ''d/P S (A)''), (''s_b'', ''d/P S (B)'')]
   \<and> length (folders two_folders) = 2 \<and> length (all_desired second_run) = 2
   \<and> list_all (\<lambda>c. \<not> creates c) (new_calls second_run (snd (create_dashboards second_run)))
   \<and> length (widget_rows (new_calls second_run (snd (create_dashboards second_run)))) = 2
   \<and> list_all (\<lambda>q. updates (entries_a @ entries_b) q
          (new_calls second_run (snd (create_dashboards second_run))))
        (all_desired second_run)
   \<and> list_all (\<lambda>p. \<exists>d. map_of (entries_a @ entries_b) (dashboard_key (ref_of p)) = Some d
          \<and> cleans second_run (snd (create_dashboards second_run)) d)
        (folders two_folders)
   \<and> (\<exists>up. uploads second_run (snd (create_dashboards second_run)) up
        \<and> list_all (\<lambda>p. map_of up (dashboard_key (ref_of p))
               = map_of (entries_a @ entries_b) (dashboard_key (ref_of p)))
             (folders two_folders)
        \<and> list_all (\<lambda>q. map_of up (query_key q) = map_of (entries_a @ entries_b) (query_key q)
               \<and> map_of up (viz_key q) = map_of (entries_a @ entries_b) (viz_key q))
             (all_desired second_run))"
proof -
  let ?S = "entries_a @ entries_b"
  let ?ds = "[(''s_a'', ''d/P S (A)''), (''s_b'', ''d/P S (B)'')]"
  have up: "last_upload (calls second_run) = Some ?S" by code_simp
  have sw: "list_all (\<lambda>kv. \<not> swept kv \<or> take 2 (snd kv) = ''q/'') ?S" by code_simp
  have lf: "local_folder second_run = two_folders" "ws second_run = strict_remote"
    by (simp_all add: second_run_def installer_def init_def)
  have rd: "reads second_run ?S"
    using sw by (intro strict_reads [OF up lf(2)]) (auto simp: list_all_iff)
  have keys: "recorded_keys second_run \<subseteq> fst ` set ?S" by code_simp
  have dist: "distinct (map fst ?S)" by code_simp
  have refs: "distinct (map ref_of (folders two_folders))" by code_simp
  have run: "fst (create_dashboards second_run) = Inr ?ds" by code_simp
  have n: "length (folders two_folders) = 2 \<and> length (all_desired second_run) = 2"
    by code_simp
  have rec: "list_all (\<lambda>p. map_of ?S (dashboard_key (ref_of p)) \<noteq> None) (folders two_folders)"
    by code_simp
  obtain t where t: "create_dashboards second_run = (Inr ?ds, t)"
    using run by (cases "create_dashboards second_run") simp
  note main = rerun_reuses_identifiers [OF t rd keys dist, unfolded lf]
  from main have a: "list_all (\<lambda>c. \<not> creates c) (new_calls second_run t)" by blast
  from main n have b: "length (widget_rows (new_calls second_run t)) = 2" by simp
  from main have c: "list_all (\<lambda>q. updates ?S q (new_calls second_run t)) (all_desired second_run)"
    unfolding list_all_iff by blast
  from main have "\<forall>p\<in>set (folders two_folders). \<forall>d.
      map_of ?S (dashboard_key (ref_of p)) = Some d \<longrightarrow> cleans second_run t d" by blast
  with rec have d: "list_all (\<lambda>p. \<exists>d. map_of ?S (dashboard_key (ref_of p)) = Some d
          \<and> cleans second_run t d) (folders two_folders)"
    unfolding list_all_iff by fastforce
  from main refs obtain u where u: "uploads second_run t u"
    "\<forall>p\<in>set (folders two_folders).
       map_of u (dashboard_key (ref_of p)) = map_of ?S (dashboard_key (ref_of p))"
    "\<forall>q\<in>set (all_desired second_run).
       map_of u (query_key q) = map_of ?S (query_key q)
       \<and> map_of u (viz_key q) = map_of ?S (viz_key q)"
    by blast
  then have e: "\<exists>up. uploads second_run t up
        \<and> list_all (\<lambda>p. map_of up (dashboard_key (ref_of p))
               = map_of ?S (dashboard_key (ref_of p))) (folders two_folders)
        \<and> list_all (\<lambda>q. map_of up (query_key q) = map_of ?S (query_key q)
               \<and> map_of up (viz_key q) = map_of ?S (viz_key q)) (all_desired second_run)"
    unfolding list_all_iff by blast
  from t have "snd (create_dashboards second_run) = t" by simp
  with rd run n a b c d e show ?thesis by simp
qed

end
